theory Spec2Isabelle
  imports Main "HOL-Library.Word"
begin

section \<open>The circular buffer of M5Utility (circular_buffer.hpp)\<close>

text \<open>
  \<^verbatim>\<open>m5::container::CircularBuffer<T>\<close> keeps a \<^verbatim>\<open>std::vector<T> _buf\<close> and the
  \<^verbatim>\<open>size_t\<close> members \<^verbatim>\<open>_cap\<close>, \<^verbatim>\<open>_head\<close>, \<^verbatim>\<open>_tail\<close> and the flag \<^verbatim>\<open>_full\<close>.
  \<^verbatim>\<open>size_t\<close> is an unsigned machine integer: it is modelled as a word of any width
  \<open>'w\<close>, so that \<^verbatim>\<open>_tail - 1 + _cap\<close> wraps around exactly as the C++ does.
  Every member function becomes a function from the object's state to its new state.
\<close>

record (overloaded) ('a, 'w) CircularBuffer =
  buf :: "'a list"
  cap :: "'w word"
  head :: "'w word"
  tail :: "'w word"
  full :: bool

text \<open>
  \<^verbatim>\<open>PTRDIFF_MAX\<close>, the largest signed value of the width of \<^verbatim>\<open>size_t\<close>. It bounds
  the number of elements of a \<^verbatim>\<open>std::vector\<close> of every element type and the length
  \<^verbatim>\<open>last - first\<close> of every iterator range.
\<close>

definition PTRDIFF_MAX :: "'w::len word" where
  "PTRDIFF_MAX = 2 ^ (LENGTH('w) - 1) - 1"

subsection \<open>Capacity\<close>

text \<open>\<^verbatim>\<open>full()\<close> returns \<^verbatim>\<open>_full\<close>: it is the field selector \<^const>\<open>full\<close>.\<close>

definition empty_cb :: "('a, 'w::len) CircularBuffer \<Rightarrow> bool" where
  "empty_cb b = (\<not> full b \<and> head b = tail b)"

definition size_cb :: "('a, 'w::len) CircularBuffer \<Rightarrow> 'w word" where
  "size_cb b =
     (if full b then cap b
      else if head b \<ge> tail b then head b - tail b else cap b + head b - tail b)"

definition capacity :: "('a, 'w::len) CircularBuffer \<Rightarrow> 'w word" where
  "capacity b = cap b"

subsection \<open>Modifiers\<close>

definition clear :: "('a, 'w::len) CircularBuffer \<Rightarrow> ('a, 'w) CircularBuffer" where
  "clear b = b\<lparr>full := False, head := 0, tail := 0\<rparr>"

definition push_front :: "'a \<Rightarrow> ('a, 'w::len) CircularBuffer \<Rightarrow> ('a, 'w) CircularBuffer" where
  "push_front v b =
     (let tail' = (tail b - 1 + cap b) mod cap b;
          buf' = (buf b)[unat tail' := v];
          head' = (if full b then (head b - 1 + cap b) mod cap b else head b)
      in b\<lparr>buf := buf', head := head', tail := tail', full := (head' = tail')\<rparr>)"

definition push_back :: "'a \<Rightarrow> ('a, 'w::len) CircularBuffer \<Rightarrow> ('a, 'w) CircularBuffer" where
  "push_back v b =
     (let buf' = (buf b)[unat (head b) := v];
          head' = (head b + 1) mod cap b;
          tail' = (if full b then (tail b + 1) mod cap b else tail b)
      in b\<lparr>buf := buf', head := head', tail := tail', full := (head' = tail')\<rparr>)"

definition pop_front :: "('a, 'w::len) CircularBuffer \<Rightarrow> ('a, 'w) CircularBuffer" where
  "pop_front b =
     (if \<not> empty_cb b then b\<lparr>tail := (tail b + 1) mod cap b, full := False\<rparr> else b)"

definition pop_back :: "('a, 'w::len) CircularBuffer \<Rightarrow> ('a, 'w) CircularBuffer" where
  "pop_back b =
     (if \<not> empty_cb b then b\<lparr>head := (head b - 1 + cap b) mod cap b, full := False\<rparr> else b)"

text \<open>\<^verbatim>\<open>fill\<close>: \<^verbatim>\<open>std::fill\<close> overwrites every slot of the vector.\<close>

definition fill :: "'a \<Rightarrow> ('a, 'w::len) CircularBuffer \<Rightarrow> ('a, 'w) CircularBuffer" where
  "fill v b = (let c = clear b in c\<lparr>buf := map (\<lambda>_. v) (buf c), full := True\<rparr>)"

text \<open>
  \<^verbatim>\<open>swap\<close> exchanges the five members of two distinct objects; on the pair of states it
  is the exchange of the components.
\<close>

definition swap_cb ::
  "('a, 'w::len) CircularBuffer \<times> ('a, 'w) CircularBuffer \<Rightarrow>
   ('a, 'w) CircularBuffer \<times> ('a, 'w) CircularBuffer" where
  "swap_cb p = (snd p, fst p)"

subsection \<open>Assignment\<close>

text \<open>
  The loop \<^verbatim>\<open>while (n--) { push_back(*first++); }\<close>. The iterator \<^verbatim>\<open>first\<close> is the list
  of the elements from its position to the end of the range; \<^verbatim>\<open>*first++\<close> reads its
  head and moves to its tail.
\<close>

function push_back_range ::
  "'w::len word \<Rightarrow> 'a list \<Rightarrow> ('a, 'w) CircularBuffer \<Rightarrow> ('a, 'w) CircularBuffer" where
  "push_back_range n first b =
     (if n = 0 then b else push_back_range (n - 1) (tl first) (push_back (hd first) b))"
  by pat_completeness auto
termination
  by (relation "measure (\<lambda>(n, first, b). unat n)") (auto simp: measure_unat)

text \<open>The loop \<^verbatim>\<open>while (n--) { push_back(v); }\<close>.\<close>

function push_back_n ::
  "'w::len word \<Rightarrow> 'a \<Rightarrow> ('a, 'w) CircularBuffer \<Rightarrow> ('a, 'w) CircularBuffer" where
  "push_back_n n v b = (if n = 0 then b else push_back_n (n - 1) v (push_back v b))"
  by pat_completeness auto
termination
  by (relation "measure (\<lambda>(n, v, b). unat n)") (auto simp: measure_unat)

text \<open>
  \<^verbatim>\<open>assign(first, last)\<close>. The range is the list \<open>xs\<close> of its elements;
  \<^verbatim>\<open>size_type sz = last - first\<close> is its length as a \<^verbatim>\<open>size_t\<close>, and
  \<^verbatim>\<open>first += (sz - _cap)\<close> drops that many elements.
\<close>

definition assign_range :: "'a list \<Rightarrow> ('a, 'w::len) CircularBuffer \<Rightarrow> ('a, 'w) CircularBuffer" where
  "assign_range xs b =
     (let c = clear b;
          sz = (of_nat (length xs) :: 'w word);
          first = (if sz > cap c then drop (unat (sz - cap c)) xs else xs);
          n = min (cap c) sz
      in push_back_range n first c)"

definition assign_n :: "'w::len word \<Rightarrow> 'a \<Rightarrow> ('a, 'w) CircularBuffer \<Rightarrow> ('a, 'w) CircularBuffer" where
  "assign_n n v b = (let c = clear b in push_back_n (min (cap c) n) v c)"

subsection \<open>Construction\<close>

text \<open>
  \<^verbatim>\<open>std::vector<T>::max_size()\<close>, which the constructor meets in \<^verbatim>\<open>_buf.resize(n)\<close>.
  It is code of the standard library, not of this repository: in libstdc++, the library
  of the ESP32 and host toolchains, it is \<^verbatim>\<open>PTRDIFF_MAX / sizeof(T)\<close>. The size
  \<^verbatim>\<open>sizeof(T)\<close> of the element type, which the class template leaves open, is the
  parameter \<open>sizeof_T\<close>.
\<close>

definition max_size :: "'w::len word \<Rightarrow> 'w word" where
  "max_size sizeof_T = PTRDIFF_MAX div sizeof_T"

text \<open>
  \<^verbatim>\<open>CircularBuffer(n)\<close> asserts \<^verbatim>\<open>n != 0\<close> and resizes the vector to \<open>n\<close>
  value-initialised elements; \<^verbatim>\<open>std::vector::resize\<close> throws
  \<^verbatim>\<open>std::length_error\<close> when \<open>n\<close> exceeds \<^verbatim>\<open>max_size()\<close>. Both failures are the
  result \<open>None\<close>. The value \<open>T0\<close> stands for the value-initialised element \<^verbatim>\<open>T()\<close>.
  Whether the allocator finds the memory is not modelled: what is proved of a
  constructed buffer is proved from the hypothesis that the constructor returned it.
\<close>

definition CircularBuffer_new ::
  "'w::len word \<Rightarrow> 'a \<Rightarrow> 'w word \<Rightarrow> ('a, 'w) CircularBuffer option" where
  "CircularBuffer_new sizeof_T T0 n =
     (if n = 0 \<or> n > max_size sizeof_T then None
      else Some \<lparr>buf = replicate (unat n) T0, cap = n, head = 0, tail = 0, full = False\<rparr>)"

definition CircularBuffer_value ::
  "'w::len word \<Rightarrow> 'a \<Rightarrow> 'w word \<Rightarrow> 'a \<Rightarrow> ('a, 'w) CircularBuffer option" where
  "CircularBuffer_value sizeof_T T0 n v =
     map_option (assign_n n v) (CircularBuffer_new sizeof_T T0 n)"

definition CircularBuffer_range ::
  "'w::len word \<Rightarrow> 'a \<Rightarrow> 'w word \<Rightarrow> 'a list \<Rightarrow> ('a, 'w) CircularBuffer option" where
  "CircularBuffer_range sizeof_T T0 n xs =
     map_option (assign_range xs) (CircularBuffer_new sizeof_T T0 n)"

subsection \<open>Element access\<close>

definition front :: "('a, 'w::len) CircularBuffer \<Rightarrow> 'a option" where
  "front b = (if \<not> empty_cb b then Some (buf b ! unat (tail b)) else None)"

definition back_cb :: "('a, 'w::len) CircularBuffer \<Rightarrow> 'a option" where
  "back_cb b =
     (if \<not> empty_cb b then Some (buf b ! unat ((head b - 1 + cap b) mod cap b)) else None)"

definition at :: "('a, 'w::len) CircularBuffer \<Rightarrow> 'w word \<Rightarrow> 'a option" where
  "at b i =
     (if \<not> empty_cb b \<and> i < size_cb b then Some (buf b ! unat ((tail b + i) mod cap b))
      else None)"

text \<open>
  \<^verbatim>\<open>read(outbuf, num)\<close>. The caller's storage is the memory \<open>out\<close> from the pointer
  \<^verbatim>\<open>outbuf\<close> on: \<open>out k\<close> is the cell \<^verbatim>\<open>outbuf[k]\<close>. It is storage of the caller, apart
  from the vector of the buffer. \<^verbatim>\<open>std::copy(src, src + elms, p)\<close> writes the \<open>elms\<close>
  elements from \<^verbatim>\<open>src\<close> to the cells from \<open>p\<close> on. The member function is not
  \<^verbatim>\<open>const\<close>, so the model returns the state of the buffer with the count and the
  memory.
\<close>

definition std_copy :: "'a list \<Rightarrow> (nat \<Rightarrow> 'a) \<Rightarrow> nat \<Rightarrow> (nat \<Rightarrow> 'a)" where
  "std_copy xs out p = (\<lambda>k. if p \<le> k \<and> k < p + length xs then xs ! (k - p) else out k)"

definition read ::
  "('a, 'w::len) CircularBuffer \<Rightarrow> (nat \<Rightarrow> 'a) \<Rightarrow> 'w word \<Rightarrow>
   'w word \<times> (nat \<Rightarrow> 'a) \<times> ('a, 'w) CircularBuffer" where
  "read b out num =
     (let sz = min num (size_cb b) in
      if sz = 0 then (sz, out, b)
      else
        let tl0 = tail b;
            elms = min (cap b - tl0) sz;
            out1 = std_copy (take (unat elms) (drop (unat tl0) (buf b))) out 0;
            tl1 = (tl0 + elms) mod cap b;
            ret = elms
        in if elms < sz then
             let elms2 = sz - elms;
                 out2 = std_copy (take (unat elms2) (drop (unat tl1) (buf b))) out1 (unat elms)
             in (ret + elms2, out2, b)
           else (ret, out1, b))"

subsection \<open>Iteration\<close>

text \<open>
  An iterator is the buffer and a position \<^verbatim>\<open>_pos\<close>; \<^verbatim>\<open>*it\<close> reads
  \<^verbatim>\<open>_buf[_pos % capacity()]\<close>, \<^verbatim>\<open>++it\<close> and \<^verbatim>\<open>--it\<close> move the position by one.
\<close>

definition begin_it :: "('a, 'w::len) CircularBuffer \<Rightarrow> 'w word" where
  "begin_it b = tail b"

definition end_it :: "('a, 'w::len) CircularBuffer \<Rightarrow> 'w word" where
  "end_it b = tail b + size_cb b"

definition deref :: "('a, 'w::len) CircularBuffer \<Rightarrow> 'w word \<Rightarrow> 'a" where
  "deref b pos = buf b ! unat (pos mod capacity b)"

text \<open>The loop \<^verbatim>\<open>for (it = first; it != last; ++it) visit(*it)\<close>, collecting the visits.\<close>

function iterate :: "('a, 'w::len) CircularBuffer \<Rightarrow> 'w word \<Rightarrow> 'w word \<Rightarrow> 'a list" where
  "iterate b it stop = (if it = stop then [] else deref b it # iterate b (it + 1) stop)"
  by pat_completeness auto
termination
proof (relation "measure (\<lambda>(b, it, stop). unat (stop - it))", goal_cases)
  case 1
  show ?case by simp
next
  case (2 b it stop)
  have e: "stop - (it + 1) = stop - it - 1" by simp
  from 2 have "stop - it \<noteq> 0" by simp
  then have "unat (stop - (it + 1)) < unat (stop - it)"
    unfolding e by (rule measure_unat)
  then show ?case by simp
qed

text \<open>
  The same loop over \<^verbatim>\<open>std::reverse_iterator\<close>s: the reverse iterator holds a base
  position \<open>cur\<close>, \<^verbatim>\<open>*rit\<close> reads the element before the base, \<^verbatim>\<open>++rit\<close> decrements
  the base.
\<close>

function riterate :: "('a, 'w::len) CircularBuffer \<Rightarrow> 'w word \<Rightarrow> 'w word \<Rightarrow> 'a list" where
  "riterate b cur stop =
     (if cur = stop then [] else deref b (cur - 1) # riterate b (cur - 1) stop)"
  by pat_completeness auto
termination
proof (relation "measure (\<lambda>(b, cur, stop). unat (cur - stop))", goal_cases)
  case 1
  show ?case by simp
next
  case (2 b cur stop)
  have e: "cur - 1 - stop = cur - stop - 1" by simp
  from 2 have "cur - stop \<noteq> 0" by simp
  then have "unat (cur - 1 - stop) < unat (cur - stop)"
    unfolding e by (rule measure_unat)
  then show ?case by simp
qed

text \<open>Forward iteration from \<^verbatim>\<open>begin()\<close> to \<^verbatim>\<open>end()\<close>, reverse from \<^verbatim>\<open>rbegin()\<close> to \<^verbatim>\<open>rend()\<close>.\<close>

definition forward :: "('a, 'w::len) CircularBuffer \<Rightarrow> 'a list" where
  "forward b = iterate b (begin_it b) (end_it b)"

definition backward :: "('a, 'w::len) CircularBuffer \<Rightarrow> 'a list" where
  "backward b = riterate b (end_it b) (begin_it b)"

text \<open>
  The equations of the four loops are recursive and unconditional: they are unfolded by
  hand, one step at a time.
\<close>

declare push_back_range.simps [simp del]
declare push_back_n.simps [simp del]
declare iterate.simps [simp del]
declare riterate.simps [simp del]

subsection \<open>Class invariant and logical view\<close>

text \<open>
  The invariant that the constructors establish and every member function keeps: the
  capacity is positive and within what the vector can hold, the vector has \<^verbatim>\<open>_cap\<close>
  slots, both indices are below the capacity, and a full buffer has \<^verbatim>\<open>_head == _tail\<close>.
\<close>

definition invar :: "('a, 'w::len) CircularBuffer \<Rightarrow> bool" where
  "invar b =
     (cap b \<noteq> 0 \<and> cap b \<le> PTRDIFF_MAX \<and> length (buf b) = unat (cap b) \<and>
      head b < cap b \<and> tail b < cap b \<and> (full b \<longrightarrow> head b = tail b))"

text \<open>
  The logical view of the specification: the element at logical index \<open>i\<close>, counted
  from the front, is in the physical slot \<open>(tail + i) mod capacity\<close>, for the
  \<open>size\<close> indices from 0 on. The arithmetic is on natural numbers, with no wrap-around.
\<close>

definition ring_view :: "'a list \<Rightarrow> nat \<Rightarrow> nat \<Rightarrow> 'a list" where
  "ring_view xs t n = map (\<lambda>i. xs ! ((t + i) mod length xs)) [0..<n]"

definition contents :: "('a, 'w::len) CircularBuffer \<Rightarrow> 'a list" where
  "contents b =
     map (\<lambda>i. buf b ! ((unat (tail b) + i) mod unat (cap b))) [0..<unat (size_cb b)]"

subsection \<open>Sequences of member calls\<close>

text \<open>
  A caller changes a buffer through its public mutators. A sequence of such calls is a
  list of \<open>mutator\<close>s, run from left to right; the count \<open>'n\<close> of \<open>Assign_n\<close> is
  a \<^verbatim>\<open>size_t\<close>. Copy assignment and \<^verbatim>\<open>swap\<close> give an
  object the state of another object, itself the result of such a sequence.
\<close>

datatype ('a, 'n) mutator =
    Push_back 'a
  | Push_front 'a
  | Pop_front
  | Pop_back
  | Clear
  | Fill 'a
  | Assign_n 'n 'a
  | Assign_range "'a list"

fun apply_mutator ::
  "('a, 'w::len word) mutator \<Rightarrow> ('a, 'w) CircularBuffer \<Rightarrow> ('a, 'w) CircularBuffer" where
  "apply_mutator (Push_back v) b = push_back v b"
| "apply_mutator (Push_front v) b = push_front v b"
| "apply_mutator Pop_front b = pop_front b"
| "apply_mutator Pop_back b = pop_back b"
| "apply_mutator Clear b = clear b"
| "apply_mutator (Fill v) b = fill v b"
| "apply_mutator (Assign_n n v) b = assign_n n v b"
| "apply_mutator (Assign_range xs) b = assign_range xs b"

definition run ::
  "('a, 'w::len) CircularBuffer \<Rightarrow> ('a, 'w word) mutator list \<Rightarrow> ('a, 'w) CircularBuffer" where
  "run b ms = foldl (\<lambda>c m. apply_mutator m c) b ms"

subsection \<open>The buffers of the unit test\<close>

text \<open>
  \<^verbatim>\<open>FixedCircularBuffer<int, 4> rbuf;\<close> of \<^verbatim>\<open>container_test.cpp\<close>, with a 32-bit
  \<^verbatim>\<open>size_t\<close> and a 4-byte \<^verbatim>\<open>int\<close> as on the ESP32: four slots holding \<^verbatim>\<open>int()\<close>,
  that is 0.
\<close>

definition rbuf4 :: "(int, 32) CircularBuffer" where
  "rbuf4 = \<lparr>buf = [0, 0, 0, 0], cap = 4, head = 0, tail = 0, full = False\<rparr>"

text \<open>
  The calls of the scenario of the specification, in its order, and the calls of
  \<^verbatim>\<open>cb_basic_test\<close> up to its \<^verbatim>\<open>push_front(6)\<close>, which differ from them.
\<close>

definition spec_steps :: "(int, 32 word) mutator list" where
  "spec_steps =
     [Push_back 1, Pop_front, Push_back 2, Push_front 3, Push_back 4, Push_back 5, Push_front 6]"

definition test_steps :: "(int, 32 word) mutator list" where
  "test_steps =
     [Push_front 1, Pop_front, Push_back 2, Pop_back,
      Push_front 3, Push_back 4, Push_back 5, Push_front 6]"

text \<open>The calls before the \<^verbatim>\<open>read\<close> that spans the end of the vector.\<close>

definition read_steps :: "(int, 32 word) mutator list" where
  "read_steps = [Push_back 0, Push_back 1, Push_back 2, Push_back 3, Pop_front, Push_back 4]"

text \<open>
  \<^verbatim>\<open>cb_iterator_test\<close>: the buffer built from \<^verbatim>\<open>{0, 1, 2}\<close>, cleared, and filled with
  9, 8, 7, 6.
\<close>

definition iter_steps :: "(int, 32 word) mutator list" where
  "iter_steps = [Assign_range [0, 1, 2], Clear, Push_back 9, Push_back 8, Push_back 7, Push_back 6]"

section \<open>Index arithmetic\<close>

lemma unat_PTRDIFF_MAX: "unat (PTRDIFF_MAX :: 'w::len word) = 2 ^ (LENGTH('w) - 1) - 1"
proof -
  have "(2 ^ (LENGTH('w) - 1) :: 'w word) \<noteq> 0"
    by simp
  then have "unat (2 ^ (LENGTH('w) - 1) - 1 :: 'w word) = unat (2 ^ (LENGTH('w) - 1) :: 'w word) - 1"
    by (rule unat_minus_one)
  moreover have "unat (2 ^ (LENGTH('w) - 1) :: 'w word) = 2 ^ (LENGTH('w) - 1)"
    by (simp add: of_nat_inverse)
  ultimately show ?thesis
    by (simp add: PTRDIFF_MAX_def)
qed

lemma le_PTRDIFF_MAX_twice:
  fixes c :: "'w::len word"
  assumes "c \<le> PTRDIFF_MAX"
  shows "2 * unat c < 2 ^ LENGTH('w)"
proof -
  have "unat c \<le> 2 ^ (LENGTH('w) - 1) - 1"
    using assms by (simp add: word_le_nat_alt unat_PTRDIFF_MAX)
  moreover have "(2::nat) ^ LENGTH('w) = 2 * 2 ^ (LENGTH('w) - 1)"
    using len_gt_0 [where 'a='w] by (cases "LENGTH('w)") simp_all
  moreover have "(0::nat) < 2 ^ (LENGTH('w) - 1)" by simp
  ultimately show ?thesis by linarith
qed

text \<open>The index arithmetic of the code, read as natural numbers.\<close>

lemma unat_add_small:
  fixes x y c :: "'w::len word"
  assumes "c \<le> PTRDIFF_MAX" "x < c" "y \<le> c"
  shows "unat (x + y) = unat x + unat y"
proof -
  have "unat x + unat y < 2 ^ LENGTH('w)"
    using le_PTRDIFF_MAX_twice [OF assms(1)] assms(2,3)
    by (simp add: word_less_nat_alt word_le_nat_alt)
  then show ?thesis by (simp add: unat_add_lem)
qed

lemma unat_inc_mod:
  fixes x c :: "'w::len word"
  assumes "c \<le> PTRDIFF_MAX" "x < c"
  shows "unat ((x + 1) mod c) = (if unat x + 1 = unat c then 0 else unat x + 1)"
proof -
  have "(1::'w word) \<le> c" using assms(2) by (simp add: word_le_nat_alt word_less_nat_alt) 
  then have "unat (x + 1) = unat x + 1"
    using unat_add_small [OF assms, of 1] by simp
  moreover have "unat x < unat c" using assms(2) by (simp add: word_less_nat_alt)
  ultimately show ?thesis by (simp add: unat_mod)
qed

lemma unat_dec_mod:
  fixes x c :: "'w::len word"
  assumes "c \<le> PTRDIFF_MAX" "x < c"
  shows "unat ((x - 1 + c) mod c) = (if unat x = 0 then unat c - 1 else unat x - 1)"
proof (cases "x = 0")
  case True
  have "c \<noteq> 0" using assms(2) by auto
  then have "unat (c - 1) = unat c - 1" by (rule unat_minus_one)
  moreover have "unat c - 1 < unat c" using \<open>c \<noteq> 0\<close> by (simp add: unat_gt_0)
  ultimately show ?thesis using True by (simp add: unat_mod)
next
  case False
  then have x1: "unat (x - 1) = unat x - 1" by (rule unat_minus_one)
  have pos: "0 < unat x" using False by (simp add: unat_gt_0)
  have lt: "unat x < unat c" using assms(2) by (simp add: word_less_nat_alt)
  have "x - 1 < c" using x1 lt by (simp add: word_less_nat_alt)
  then have "unat (x - 1 + c) = unat (x - 1) + unat c"
    using unat_add_small [OF assms(1), of "x - 1" c] by simp
  then have "unat ((x - 1 + c) mod c) = (unat x - 1 + unat c) mod unat c"
    using x1 by (simp add: unat_mod)
  also have "\<dots> = unat x - 1" using lt by simp
  finally show ?thesis using pos by simp
qed

lemma unat_add_mod:
  fixes x i c :: "'w::len word"
  assumes "c \<le> PTRDIFF_MAX" "x < c" "i \<le> c"
  shows "unat ((x + i) mod c) = (unat x + unat i) mod unat c"
  using unat_add_small [OF assms] by (simp add: unat_mod)

lemma invar_nat:
  assumes "invar b"
  shows "0 < unat (cap b)" and "unat (head b) < unat (cap b)" and "unat (tail b) < unat (cap b)"
    and "length (buf b) = unat (cap b)" and "full b \<Longrightarrow> unat (head b) = unat (tail b)"
    and "cap b \<le> PTRDIFF_MAX" and "head b < cap b" and "tail b < cap b"
  using assms by (auto simp: invar_def word_less_nat_alt unat_gt_0)

lemma unat_size_cb:
  assumes "invar b"
  shows "unat (size_cb b) =
     (if full b then unat (cap b)
      else if unat (tail b) \<le> unat (head b) then unat (head b) - unat (tail b)
      else unat (cap b) + unat (head b) - unat (tail b))"
proof -
  note n = invar_nat [OF assms]
  have hc: "unat (cap b + head b) = unat (cap b) + unat (head b)"
    using unat_add_small [OF n(6) n(7), of "cap b"] by (simp add: add.commute)
  show ?thesis
  proof (cases "full b")
    case True
    then show ?thesis by (simp add: size_cb_def)
  next
    case nf: False
    show ?thesis
    proof (cases "tail b \<le> head b")
      case True
      then show ?thesis using nf by (simp add: size_cb_def unat_sub word_le_nat_alt)
    next
      case False
      then have "tail b \<le> cap b + head b"
        using n(3) hc by (simp add: word_le_nat_alt)
      then have "unat (cap b + head b - tail b) = unat (cap b) + unat (head b) - unat (tail b)"
        using hc by (simp add: unat_sub)
      then show ?thesis using nf False by (simp add: size_cb_def word_le_nat_alt)
    qed
  qed
qed

lemma size_le_cap: "invar b \<Longrightarrow> unat (size_cb b) \<le> unat (cap b)"
  using invar_nat(2,3) [of b] unat_size_cb [of b] by (auto split: if_splits)

section \<open>The ring as a list\<close>

lemma length_ring_view: "length (ring_view xs t n) = n"
  by (simp add: ring_view_def)

lemma ring_view_nth: "i < n \<Longrightarrow> ring_view xs t n ! i = xs ! ((t + i) mod length xs)"
  by (simp add: ring_view_def)

lemma mod_lt_twice:
  fixes x c :: nat
  assumes "x < 2 * c"
  shows "x mod c = (if x < c then x else x - c)"
proof (cases "x < c")
  case True
  then show ?thesis by simp
next
  case False
  then have "x mod c = (x - c) mod c" by (simp add: le_mod_geq)
  moreover have "x - c < c" using assms False by simp
  ultimately show ?thesis using False by simp
qed

lemma mod_add_inj:
  fixes t i j c :: nat
  assumes "i < c" "j < c"
  shows "((t + i) mod c = (t + j) mod c) = (i = j)"
proof
  assume e: "(t + i) mod c = (t + j) mod c"
  have e': "(t mod c + i) mod c = (t mod c + j) mod c"
    using e by (simp add: mod_add_left_eq)
  have a: "t mod c < c" using assms by simp
  have "t mod c + i < 2 * c" using a assms by linarith
  from mod_lt_twice [OF this]
  have i: "(t mod c + i) mod c = (if t mod c + i < c then t mod c + i else t mod c + i - c)" .
  have "t mod c + j < 2 * c" using a assms by linarith
  from mod_lt_twice [OF this]
  have j: "(t mod c + j) mod c = (if t mod c + j < c then t mod c + j else t mod c + j - c)" .
  show "i = j"
    using e' a assms unfolding i j by (simp split: if_splits)
qed simp

lemma mod_add_self_iff:
  fixes t j c :: nat
  assumes "t < c" "j < c"
  shows "((t + j) mod c = t) = (j = 0)"
proof -
  have "0 < c" using assms by linarith
  from mod_add_inj [OF assms(2) this, of t]
  show ?thesis using assms(1) by simp
qed

lemma ring_view_push_back:
  assumes "t < length xs" "n < length xs"
  shows "ring_view (xs[(t + n) mod length xs := v]) t (Suc n) = ring_view xs t n @ [v]"
proof (rule nth_equalityI)
  show "length (ring_view (xs[(t + n) mod length xs := v]) t (Suc n)) =
      length (ring_view xs t n @ [v])"
    by (simp add: length_ring_view)
  fix i
  assume "i < length (ring_view (xs[(t + n) mod length xs := v]) t (Suc n))"
  then have i: "i < Suc n" by (simp add: length_ring_view)
  have pos: "0 < length xs" using assms by linarith
  have p: "(t + n) mod length xs < length xs" using pos by (rule mod_less_divisor)
  have l: "ring_view (xs[(t + n) mod length xs := v]) t (Suc n) ! i =
      xs[(t + n) mod length xs := v] ! ((t + i) mod length xs)"
    using i by (simp add: ring_view_nth)
  show "ring_view (xs[(t + n) mod length xs := v]) t (Suc n) ! i = (ring_view xs t n @ [v]) ! i"
  proof (cases "i = n")
    case True
    then show ?thesis using p l
      by (simp add: nth_append length_ring_view)
  next
    case False
    then have "i < n" using i by simp
    moreover from this have "(t + n) mod length xs \<noteq> (t + i) mod length xs"
      using assms(2) by (simp add: mod_add_inj)
    ultimately show ?thesis using l
      by (simp add: ring_view_nth nth_append length_ring_view)
  qed
qed

lemma ring_view_push_back_full:
  assumes "t < length xs"
  shows "ring_view (xs[t := v]) ((t + 1) mod length xs) (length xs) =
     tl (ring_view xs t (length xs)) @ [v]"
proof (rule nth_equalityI)
  have pos: "0 < length xs" using assms by linarith
  show "length (ring_view (xs[t := v]) ((t + 1) mod length xs) (length xs)) =
      length (tl (ring_view xs t (length xs)) @ [v])"
    using pos by (simp add: length_ring_view)
  fix i
  assume "i < length (ring_view (xs[t := v]) ((t + 1) mod length xs) (length xs))"
  then have i: "i < length xs" by (simp add: length_ring_view)
  have idx: "((t + 1) mod length xs + i) mod length xs = (t + Suc i) mod length xs"
    by (simp add: mod_add_left_eq)
  have l: "ring_view (xs[t := v]) ((t + 1) mod length xs) (length xs) ! i =
      xs[t := v] ! ((t + Suc i) mod length xs)"
    using i idx by (simp add: ring_view_nth)
  show "ring_view (xs[t := v]) ((t + 1) mod length xs) (length xs) ! i =
      (tl (ring_view xs t (length xs)) @ [v]) ! i"
  proof (cases "Suc i = length xs")
    case True
    then have "(t + Suc i) mod length xs = t" using assms by simp
    moreover have "\<not> i < length xs - 1" using True by simp
    moreover have "i - (length xs - 1) = 0" using True by simp
    ultimately show ?thesis using assms l
      by (simp add: nth_append length_ring_view)
  next
    case False
    then have si: "Suc i < length xs" using i by simp
    from mod_add_self_iff [OF assms this]
    have ne: "(t + Suc i) mod length xs \<noteq> t" by simp
    have "i < length xs - 1" using si by simp
    then have "(tl (ring_view xs t (length xs)) @ [v]) ! i = ring_view xs t (length xs) ! Suc i"
      by (simp add: nth_append nth_tl length_ring_view)
    also have "\<dots> = xs ! ((t + Suc i) mod length xs)"
      using si by (simp add: ring_view_nth)
    finally show ?thesis using l ne by simp
  qed
qed

lemma ring_view_push_front:
  assumes "t < length xs" "n < length xs" "t' = (t + length xs - 1) mod length xs"
  shows "ring_view (xs[t' := v]) t' (Suc n) = v # ring_view xs t n"
proof (rule nth_equalityI)
  show "length (ring_view (xs[t' := v]) t' (Suc n)) = length (v # ring_view xs t n)"
    by (simp add: length_ring_view)
  fix i
  assume "i < length (ring_view (xs[t' := v]) t' (Suc n))"
  then have i: "i < Suc n" by (simp add: length_ring_view)
  have pos: "0 < length xs" using assms by linarith
  have t': "t' < length xs" unfolding assms(3) using pos by (rule mod_less_divisor)
  have idx: "(t' + Suc j) mod length xs = (t + j) mod length xs" for j
  proof -
    have "(t' + Suc j) mod length xs = (t + length xs - 1 + Suc j) mod length xs"
      unfolding assms(3) by (rule mod_add_left_eq)
    also have "t + length xs - 1 + Suc j = t + j + length xs" using assms(1) by simp
    finally show ?thesis by simp
  qed
  show "ring_view (xs[t' := v]) t' (Suc n) ! i = (v # ring_view xs t n) ! i"
  proof (cases i)
    case 0
    then show ?thesis using t' by (simp add: ring_view_nth)
  next
    case (Suc j)
    then have j: "j < n" using i by simp
    then have "Suc j < length xs" using assms(2) by simp
    from mod_add_self_iff [OF t' this]
    have "(t' + Suc j) mod length xs \<noteq> t'" by simp
    then have "(t + j) mod length xs \<noteq> t'" using idx [of j] by simp
    then show ?thesis using Suc i j idx [of j]
      by (simp add: ring_view_nth)
  qed
qed

lemma ring_view_push_front_full:
  assumes "t < length xs" "t' = (t + length xs - 1) mod length xs"
  shows "ring_view (xs[t' := v]) t' (length xs) = v # butlast (ring_view xs t (length xs))"
proof -
  obtain m where m: "length xs = Suc m" using assms(1) by (cases "length xs") auto
  have "m < length xs" using m by simp
  from ring_view_push_front [OF assms(1) this assms(2)]
  have "ring_view (xs[t' := v]) t' (length xs) = v # ring_view xs t m"
    using m by simp
  moreover have "ring_view xs t m = butlast (ring_view xs t (Suc m))"
    by (simp add: ring_view_def)
  ultimately show ?thesis using m by simp
qed

lemma ring_view_pop_front:
  assumes "0 < n"
  shows "ring_view xs ((t + 1) mod length xs) (n - 1) = tl (ring_view xs t n)"
proof (rule nth_equalityI)
  show "length (ring_view xs ((t + 1) mod length xs) (n - 1)) = length (tl (ring_view xs t n))"
    by (simp add: length_ring_view)
  fix i
  assume "i < length (ring_view xs ((t + 1) mod length xs) (n - 1))"
  then have i: "i < n - 1" by (simp add: length_ring_view)
  have "((t + 1) mod length xs + i) mod length xs = (t + Suc i) mod length xs"
    by (simp add: mod_add_left_eq)
  then show "ring_view xs ((t + 1) mod length xs) (n - 1) ! i = tl (ring_view xs t n) ! i"
    using i by (simp add: ring_view_nth nth_tl length_ring_view)
qed

lemma ring_view_pop_back: "ring_view xs t (n - 1) = butlast (ring_view xs t n)"
  by (cases n) (simp_all add: ring_view_def)


section \<open>The member functions on the logical view\<close>

lemma length_contents: "length (contents b) = unat (size_cb b)"
  by (simp add: contents_def)

lemma contents_nth:
  "i < unat (size_cb b) \<Longrightarrow>
   contents b ! i = buf b ! ((unat (tail b) + i) mod unat (cap b))"
  by (simp add: contents_def)

lemma contents_ring_view:
  "invar b \<Longrightarrow> contents b = ring_view (buf b) (unat (tail b)) (unat (size_cb b))"
  by (simp add: contents_def ring_view_def invar_def)

lemma inc_if_mod:
  fixes t c :: nat
  shows "t < c \<Longrightarrow> (if t + 1 = c then 0 else t + 1) = (t + 1) mod c"
  by (simp add: mod_lt_twice)

lemma dec_if_mod:
  fixes t c :: nat
  shows "t < c \<Longrightarrow> (if t = 0 then c - 1 else t - 1) = (t + c - 1) mod c"
  by (simp add: mod_lt_twice)

lemma size_lt_cap:
  assumes "invar b" "\<not> full b"
  shows "unat (size_cb b) < unat (cap b)"
  using invar_nat(2,3) [OF assms(1)] unat_size_cb [OF assms(1)] assms(2)
  by (simp split: if_splits)

lemma head_tail_size:
  assumes "invar b" "\<not> full b"
  shows "unat (head b) = (unat (tail b) + unat (size_cb b)) mod unat (cap b)"
proof -
  note n = invar_nat(2,3) [OF assms(1)]
  have "unat (tail b) + unat (size_cb b) < 2 * unat (cap b)"
    using n size_lt_cap [OF assms] by linarith
  from mod_lt_twice [OF this] show ?thesis
    using n unat_size_cb [OF assms(1)] assms(2) by (simp split: if_splits)
qed

subsection \<open>push_back\<close>

lemma push_back_fields:
  assumes "invar b"
  shows "buf (push_back v b) = (buf b)[unat (head b) := v]"
    and "cap (push_back v b) = cap b"
    and "unat (head (push_back v b)) =
           (if unat (head b) + 1 = unat (cap b) then 0 else unat (head b) + 1)"
    and "unat (tail (push_back v b)) =
           (if full b then (if unat (tail b) + 1 = unat (cap b) then 0 else unat (tail b) + 1)
            else unat (tail b))"
    and "full (push_back v b) = (unat (head (push_back v b)) = unat (tail (push_back v b)))"
  using invar_nat(6,7,8) [OF assms]
  by (simp_all add: push_back_def Let_def unat_inc_mod word_unat_eq_iff)

lemma invar_push_back:
  assumes "invar b"
  shows "invar (push_back v b)"
proof -
  note n = invar_nat [OF assms]
  note f = push_back_fields [OF assms, of v]
  have "unat (head (push_back v b)) < unat (cap b)" using n(1,2) f(3) by (simp split: if_splits)
  moreover have "unat (tail (push_back v b)) < unat (cap b)"
    using n(1,3) f(4) by (simp split: if_splits)
  moreover have "full (push_back v b) \<longrightarrow> head (push_back v b) = tail (push_back v b)"
    using f(5) by (simp add: word_unat_eq_iff)
  ultimately show ?thesis
    using assms f(1,2) by (simp add: invar_def word_less_nat_alt)
qed

lemma size_push_back:
  assumes "invar b"
  shows "unat (size_cb (push_back v b)) =
     (if full b then unat (cap b) else unat (size_cb b) + 1)"
proof -
  note n = invar_nat [OF assms]
  note f = push_back_fields [OF assms, of v]
  note s = unat_size_cb [OF assms]
  note s' = unat_size_cb [OF invar_push_back [OF assms], of v]
  show ?thesis
  proof (cases "full b")
    case True
    then show ?thesis using n f s s' by (simp split: if_splits)
  next
    case False
    then show ?thesis using n(1,2,3) f(2,3,4,5) s s' by (simp split: if_splits)
  qed
qed

lemma contents_push_back:
  assumes "invar b"
  shows "contents (push_back v b) =
     (if full b then tl (contents b) @ [v] else contents b @ [v])"
proof -
  note n = invar_nat [OF assms]
  note f = push_back_fields [OF assms, of v]
  note sp = size_push_back [OF assms, of v]
  have l: "length ((buf b)[unat (head b) := v]) = unat (cap b)" using n(4) by simp
  have c': "contents (push_back v b) =
      ring_view ((buf b)[unat (head b) := v]) (unat (tail (push_back v b)))
        (unat (size_cb (push_back v b)))"
    using contents_ring_view [OF invar_push_back [OF assms], of v] f(1) by simp
  show ?thesis
  proof (cases "full b")
    case True
    have t: "unat (tail b) < length (buf b)" using n(3,4) by simp
    have "unat (tail (push_back v b)) = (unat (tail b) + 1) mod length (buf b)"
      using f(4) True inc_if_mod [OF n(3)] n(4) by simp
    then have "contents (push_back v b) =
        ring_view ((buf b)[unat (tail b) := v]) ((unat (tail b) + 1) mod length (buf b))
          (length (buf b))"
      using c' sp True n(4,5) by simp
    also have "\<dots> = tl (ring_view (buf b) (unat (tail b)) (length (buf b))) @ [v]"
      by (rule ring_view_push_back_full [OF t])
    also have "ring_view (buf b) (unat (tail b)) (length (buf b)) = contents b"
      using contents_ring_view [OF assms] unat_size_cb [OF assms] True n(4) by simp
    finally show ?thesis using True by simp
  next
    case False
    have t: "unat (tail b) < length (buf b)" using n(3,4) by simp
    have s: "unat (size_cb b) < length (buf b)" using size_lt_cap [OF assms False] n(4) by simp
    have h: "unat (head b) = (unat (tail b) + unat (size_cb b)) mod length (buf b)"
      using head_tail_size [OF assms False] n(4) by simp
    have "contents (push_back v b) =
        ring_view ((buf b)[(unat (tail b) + unat (size_cb b)) mod length (buf b) := v])
          (unat (tail b)) (Suc (unat (size_cb b)))"
      using c' sp False f(4) h by simp
    also have "\<dots> = ring_view (buf b) (unat (tail b)) (unat (size_cb b)) @ [v]"
      by (rule ring_view_push_back [OF t s])
    finally show ?thesis using False contents_ring_view [OF assms] by simp
  qed
qed

subsection \<open>push_front\<close>

lemma push_front_fields:
  assumes "invar b"
  shows "buf (push_front v b) = (buf b)[unat (tail (push_front v b)) := v]"
    and "cap (push_front v b) = cap b"
    and "unat (tail (push_front v b)) =
           (if unat (tail b) = 0 then unat (cap b) - 1 else unat (tail b) - 1)"
    and "unat (head (push_front v b)) =
           (if full b then (if unat (head b) = 0 then unat (cap b) - 1 else unat (head b) - 1)
            else unat (head b))"
    and "full (push_front v b) = (unat (head (push_front v b)) = unat (tail (push_front v b)))"
  using invar_nat(6,7,8) [OF assms]
  by (simp_all add: push_front_def Let_def unat_dec_mod word_unat_eq_iff)

lemma invar_push_front:
  assumes "invar b"
  shows "invar (push_front v b)"
proof -
  note n = invar_nat [OF assms]
  note f = push_front_fields [OF assms, of v]
  have "unat (head (push_front v b)) < unat (cap b)" using n(1,2) f(4) by (simp split: if_splits)
  moreover have "unat (tail (push_front v b)) < unat (cap b)"
    using n(1,3) f(3) by (simp split: if_splits)
  moreover have "full (push_front v b) \<longrightarrow> head (push_front v b) = tail (push_front v b)"
    using f(5) by (simp add: word_unat_eq_iff)
  ultimately show ?thesis
    using assms f(1,2) by (simp add: invar_def word_less_nat_alt)
qed

lemma size_push_front:
  assumes "invar b"
  shows "unat (size_cb (push_front v b)) =
     (if full b then unat (cap b) else unat (size_cb b) + 1)"
proof -
  note n = invar_nat [OF assms]
  note f = push_front_fields [OF assms, of v]
  note s = unat_size_cb [OF assms]
  note s' = unat_size_cb [OF invar_push_front [OF assms], of v]
  show ?thesis
  proof (cases "full b")
    case True
    then show ?thesis using n f(2,3,4,5) s s' by (simp split: if_splits)
  next
    case False
    then show ?thesis using n(1,2,3) f(2,3,4,5) s s' by (simp split: if_splits)
  qed
qed

lemma contents_push_front:
  assumes "invar b"
  shows "contents (push_front v b) =
     (if full b then v # butlast (contents b) else v # contents b)"
proof -
  note n = invar_nat [OF assms]
  note f = push_front_fields [OF assms, of v]
  note sp = size_push_front [OF assms, of v]
  have t: "unat (tail b) < length (buf b)" using n(3,4) by simp
  have t': "unat (tail (push_front v b)) = (unat (tail b) + length (buf b) - 1) mod length (buf b)"
    using f(3) dec_if_mod [OF n(3)] n(4) by simp
  have c': "contents (push_front v b) =
      ring_view ((buf b)[unat (tail (push_front v b)) := v]) (unat (tail (push_front v b)))
        (unat (size_cb (push_front v b)))"
    using contents_ring_view [OF invar_push_front [OF assms], of v] f(1) by simp
  show ?thesis
  proof (cases "full b")
    case True
    have "contents (push_front v b) =
        ring_view ((buf b)[unat (tail (push_front v b)) := v]) (unat (tail (push_front v b)))
          (length (buf b))"
      using c' sp True n(4) by simp
    also have "\<dots> = v # butlast (ring_view (buf b) (unat (tail b)) (length (buf b)))"
      by (rule ring_view_push_front_full [OF t t'])
    also have "ring_view (buf b) (unat (tail b)) (length (buf b)) = contents b"
      using contents_ring_view [OF assms] unat_size_cb [OF assms] True n(4) by simp
    finally show ?thesis using True by simp
  next
    case False
    have s: "unat (size_cb b) < length (buf b)" using size_lt_cap [OF assms False] n(4) by simp
    have "contents (push_front v b) =
        ring_view ((buf b)[unat (tail (push_front v b)) := v]) (unat (tail (push_front v b)))
          (Suc (unat (size_cb b)))"
      using c' sp False by simp
    also have "\<dots> = v # ring_view (buf b) (unat (tail b)) (unat (size_cb b))"
      by (rule ring_view_push_front [OF t s t'])
    finally show ?thesis using False contents_ring_view [OF assms] by simp
  qed
qed


subsection \<open>pop_front, pop_back, clear, fill\<close>

lemma empty_iff_size:
  assumes "invar b"
  shows "empty_cb b = (unat (size_cb b) = 0)"
  using invar_nat(1,2,3) [OF assms] unat_size_cb [OF assms]
  by (auto simp: empty_cb_def word_unat_eq_iff split: if_splits)

lemma pop_front_fields:
  assumes "invar b" "\<not> empty_cb b"
  shows "buf (pop_front b) = buf b" and "cap (pop_front b) = cap b"
    and "head (pop_front b) = head b"
    and "unat (tail (pop_front b)) =
           (if unat (tail b) + 1 = unat (cap b) then 0 else unat (tail b) + 1)"
    and "\<not> full (pop_front b)"
  using invar_nat(6,8) [OF assms(1)] assms(2)
  by (simp_all add: pop_front_def unat_inc_mod)

lemma invar_pop_front:
  assumes "invar b"
  shows "invar (pop_front b)"
proof (cases "empty_cb b")
  case True
  then show ?thesis using assms by (simp add: pop_front_def)
next
  case False
  note n = invar_nat [OF assms]
  note f = pop_front_fields [OF assms False]
  have "unat (tail (pop_front b)) < unat (cap b)" using n(1,3) f(4) by (simp split: if_splits)
  then show ?thesis
    using assms f(1,2,3,5) by (simp add: invar_def word_less_nat_alt)
qed

lemma size_pop_front:
  assumes "invar b"
  shows "unat (size_cb (pop_front b)) = unat (size_cb b) - 1"
proof (cases "empty_cb b")
  case True
  then show ?thesis using empty_iff_size [OF assms] by (simp add: pop_front_def)
next
  case False
  note n = invar_nat [OF assms]
  note f = pop_front_fields [OF assms False]
  note s = unat_size_cb [OF assms]
  note s' = unat_size_cb [OF invar_pop_front [OF assms]]
  have "unat (size_cb b) \<noteq> 0" using False empty_iff_size [OF assms] by simp
  then show ?thesis using n(1,2,3,5) f s s' by (simp split: if_splits)
qed

lemma contents_pop_front:
  assumes "invar b"
  shows "contents (pop_front b) = tl (contents b)"
proof (cases "empty_cb b")
  case True
  then have "contents b = []"
    using empty_iff_size [OF assms] length_contents [of b] by simp
  then show ?thesis using True by (simp add: pop_front_def)
next
  case False
  note n = invar_nat [OF assms]
  note f = pop_front_fields [OF assms False]
  have pos: "0 < unat (size_cb b)" using False empty_iff_size [OF assms] by simp
  have "unat (tail (pop_front b)) = (unat (tail b) + 1) mod length (buf b)"
    using f(4) inc_if_mod [OF n(3)] n(4) by simp
  then have "contents (pop_front b) =
      ring_view (buf b) ((unat (tail b) + 1) mod length (buf b)) (unat (size_cb b) - 1)"
    using contents_ring_view [OF invar_pop_front [OF assms]] f(1) size_pop_front [OF assms]
    by simp
  also have "\<dots> = tl (ring_view (buf b) (unat (tail b)) (unat (size_cb b)))"
    by (rule ring_view_pop_front [OF pos])
  finally show ?thesis using contents_ring_view [OF assms] by simp
qed

lemma pop_back_fields:
  assumes "invar b" "\<not> empty_cb b"
  shows "buf (pop_back b) = buf b" and "cap (pop_back b) = cap b"
    and "tail (pop_back b) = tail b"
    and "unat (head (pop_back b)) =
           (if unat (head b) = 0 then unat (cap b) - 1 else unat (head b) - 1)"
    and "\<not> full (pop_back b)"
  using invar_nat(6,7) [OF assms(1)] assms(2)
  by (simp_all add: pop_back_def unat_dec_mod)

lemma invar_pop_back:
  assumes "invar b"
  shows "invar (pop_back b)"
proof (cases "empty_cb b")
  case True
  then show ?thesis using assms by (simp add: pop_back_def)
next
  case False
  note n = invar_nat [OF assms]
  note f = pop_back_fields [OF assms False]
  have "unat (head (pop_back b)) < unat (cap b)" using n(1,2) f(4) by (simp split: if_splits)
  then show ?thesis
    using assms f(1,2,3,5) by (simp add: invar_def word_less_nat_alt)
qed

lemma size_pop_back:
  assumes "invar b"
  shows "unat (size_cb (pop_back b)) = unat (size_cb b) - 1"
proof (cases "empty_cb b")
  case True
  then show ?thesis using empty_iff_size [OF assms] by (simp add: pop_back_def)
next
  case False
  note n = invar_nat [OF assms]
  note f = pop_back_fields [OF assms False]
  note s = unat_size_cb [OF assms]
  note s' = unat_size_cb [OF invar_pop_back [OF assms]]
  have "unat (size_cb b) \<noteq> 0" using False empty_iff_size [OF assms] by simp
  then show ?thesis using n(1,2,3,5) f s s' by (simp split: if_splits)
qed

lemma contents_pop_back:
  assumes "invar b"
  shows "contents (pop_back b) = butlast (contents b)"
proof (cases "empty_cb b")
  case True
  then have "contents b = []"
    using empty_iff_size [OF assms] length_contents [of b] by simp
  then show ?thesis using True by (simp add: pop_back_def)
next
  case False
  note f = pop_back_fields [OF assms False]
  have "contents (pop_back b) = ring_view (buf b) (unat (tail b)) (unat (size_cb b) - 1)"
    using contents_ring_view [OF invar_pop_back [OF assms]] f(1,3) size_pop_back [OF assms]
    by simp
  also have "\<dots> = butlast (ring_view (buf b) (unat (tail b)) (unat (size_cb b)))"
    by (rule ring_view_pop_back)
  finally show ?thesis using contents_ring_view [OF assms] by simp
qed

lemma invar_clear: "invar b \<Longrightarrow> invar (clear b)"
  by (auto simp: invar_def clear_def word_neq_0_conv)

lemma size_clear: "size_cb (clear b) = 0"
  by (simp add: size_cb_def clear_def)

lemma contents_clear: "contents (clear b) = []"
  by (simp add: contents_def size_clear)

lemma invar_fill: "invar b \<Longrightarrow> invar (fill v b)"
  by (auto simp: invar_def fill_def clear_def Let_def word_neq_0_conv)

lemma contents_fill:
  assumes "invar b"
  shows "contents (fill v b) = replicate (unat (cap b)) v"
proof (rule nth_equalityI)
  note n = invar_nat [OF assms]
  have s: "size_cb (fill v b) = cap b" by (simp add: size_cb_def fill_def clear_def Let_def)
  show "length (contents (fill v b)) = length (replicate (unat (cap b)) v)"
    by (simp add: length_contents s)
  fix i
  assume "i < length (contents (fill v b))"
  then have i: "i < unat (cap b)" by (simp add: length_contents s)
  have f: "buf (fill v b) = map (\<lambda>_. v) (buf b)" "tail (fill v b) = 0" "cap (fill v b) = cap b"
    by (simp_all add: fill_def clear_def Let_def)
  have "contents (fill v b) ! i =
      buf (fill v b) ! ((unat (tail (fill v b)) + i) mod unat (cap (fill v b)))"
    using i s by (simp add: contents_def)
  also have "\<dots> = map (\<lambda>_. v) (buf b) ! i" using i f by simp
  also have "\<dots> = v" using i n(4) by simp
  finally show "contents (fill v b) ! i = replicate (unat (cap b)) v ! i"
    using i by simp
qed


subsection \<open>The loops of assign and the constructors\<close>

lemma full_size: "invar b \<Longrightarrow> full b \<Longrightarrow> unat (size_cb b) = unat (cap b)"
  by (simp add: unat_size_cb)

lemma push_back_range_0: "push_back_range 0 first b = b"
  by (simp add: push_back_range.simps [of 0])

lemma push_back_range_step:
  "n \<noteq> 0 \<Longrightarrow>
   push_back_range n first b = push_back_range (n - 1) (tl first) (push_back (hd first) b)"
  by (simp add: push_back_range.simps [of n])

lemma push_back_n_0: "push_back_n 0 v b = b"
  by (simp add: push_back_n.simps [of 0])

lemma push_back_n_step:
  "n \<noteq> 0 \<Longrightarrow> push_back_n n v b = push_back_n (n - 1) v (push_back v b)"
  by (simp add: push_back_n.simps [of n])

lemma cap_push_back: "cap (push_back v b) = cap b"
  by (simp add: push_back_def Let_def)

lemma invar_push_back_range: "invar b \<Longrightarrow> invar (push_back_range n first b)"
proof (induction n first b rule: push_back_range.induct)
  case (1 n first b)
  show ?case
  proof (cases "n = 0")
    case True
    then show ?thesis using "1.prems" by (simp add: push_back_range_0 push_back_range_step)
  next
    case False
    from "1.IH" [OF False invar_push_back [OF "1.prems"]]
    show ?thesis using False by (simp add: push_back_range_0 push_back_range_step)
  qed
qed

lemma cap_push_back_range: "cap (push_back_range n first b) = cap b"
proof (induction n first b rule: push_back_range.induct)
  case (1 n first b)
  show ?case
  proof (cases "n = 0")
    case True
    then show ?thesis by (simp add: push_back_range_0 push_back_range_step)
  next
    case False
    from "1.IH" [OF False] show ?thesis
      using False by (simp add: push_back_range_0 push_back_range_step cap_push_back)
  qed
qed

lemma contents_push_back_range:
  assumes "invar b" "unat (size_cb b) + unat n \<le> unat (cap b)" "unat n \<le> length first"
  shows "contents (push_back_range n first b) = contents b @ take (unat n) first"
  using assms
proof (induction n first b rule: push_back_range.induct)
  case (1 n first b)
  show ?case
  proof (cases "n = 0")
    case True
    then show ?thesis by (simp add: push_back_range_0 push_back_range_step)
  next
    case False
    then have n: "unat n = Suc (unat (n - 1))"
      using unat_minus_one [OF False] by (simp add: unat_gt_0)
    have nf: "\<not> full b" using "1.prems"(1,2) n full_size by fastforce
    have ne: "first \<noteq> []" using "1.prems"(3) n by auto
    have s: "unat (size_cb (push_back (hd first) b)) = unat (size_cb b) + 1"
      using size_push_back [OF "1.prems"(1)] nf by simp
    have "contents (push_back_range (n - 1) (tl first) (push_back (hd first) b)) =
        contents (push_back (hd first) b) @ take (unat (n - 1)) (tl first)"
      using "1.prems"(2,3) n s
      by (intro "1.IH" [OF False invar_push_back [OF "1.prems"(1)]])
         (simp_all add: cap_push_back)
    also have "contents (push_back (hd first) b) = contents b @ [hd first]"
      using contents_push_back [OF "1.prems"(1)] nf by simp
    also have "(contents b @ [hd first]) @ take (unat (n - 1)) (tl first) =
        contents b @ take (unat n) first"
      using ne n by (cases first) simp_all
    finally show ?thesis using False by (simp add: push_back_range_0 push_back_range_step)
  qed
qed

lemma invar_push_back_n: "invar b \<Longrightarrow> invar (push_back_n n v b)"
proof (induction n v b rule: push_back_n.induct)
  case (1 n v b)
  show ?case
  proof (cases "n = 0")
    case True
    then show ?thesis using "1.prems" by (simp add: push_back_n_0 push_back_n_step)
  next
    case False
    from "1.IH" [OF False invar_push_back [OF "1.prems"]]
    show ?thesis using False by (simp add: push_back_n_0 push_back_n_step)
  qed
qed

lemma cap_push_back_n: "cap (push_back_n n v b) = cap b"
proof (induction n v b rule: push_back_n.induct)
  case (1 n v b)
  show ?case
  proof (cases "n = 0")
    case True
    then show ?thesis by (simp add: push_back_n_0 push_back_n_step)
  next
    case False
    from "1.IH" [OF False] show ?thesis
      using False by (simp add: push_back_n_0 push_back_n_step cap_push_back)
  qed
qed

lemma contents_push_back_n:
  assumes "invar b" "unat (size_cb b) + unat n \<le> unat (cap b)"
  shows "contents (push_back_n n v b) = contents b @ replicate (unat n) v"
  using assms
proof (induction n v b rule: push_back_n.induct)
  case (1 n v b)
  show ?case
  proof (cases "n = 0")
    case True
    then show ?thesis by (simp add: push_back_n_0 push_back_n_step)
  next
    case False
    then have n: "unat n = Suc (unat (n - 1))"
      using unat_minus_one [OF False] by (simp add: unat_gt_0)
    have nf: "\<not> full b" using "1.prems"(1,2) n full_size by fastforce
    have s: "unat (size_cb (push_back v b)) = unat (size_cb b) + 1"
      using size_push_back [OF "1.prems"(1)] nf by simp
    have "contents (push_back_n (n - 1) v (push_back v b)) =
        contents (push_back v b) @ replicate (unat (n - 1)) v"
      using "1.prems"(2) n s
      by (intro "1.IH" [OF False invar_push_back [OF "1.prems"(1)]])
         (simp_all add: cap_push_back)
    also have "contents (push_back v b) = contents b @ [v]"
      using contents_push_back [OF "1.prems"(1)] nf by simp
    also have "(contents b @ [v]) @ replicate (unat (n - 1)) v =
        contents b @ replicate (unat n) v"
      using n by (simp add: replicate_append_same)
    finally show ?thesis using False by (simp add: push_back_n_0 push_back_n_step)
  qed
qed

lemma unat_min: "unat (min a b) = min (unat a) (unat b)" for a b :: "'w::len word"
  by (simp add: min_def word_le_nat_alt)

lemma unat_of_nat_length:
  assumes "length xs \<le> unat (PTRDIFF_MAX :: 'w::len word)"
  shows "unat (of_nat (length xs) :: 'w word) = length xs"
  using assms by (rule le_unat_uoi)

lemma invar_assign_range: "invar b \<Longrightarrow> invar (assign_range xs b)"
  by (simp add: assign_range_def Let_def invar_push_back_range invar_clear)

lemma cap_assign_range: "cap (assign_range xs b) = cap b"
  by (simp add: assign_range_def Let_def cap_push_back_range clear_def)

lemma contents_assign_range:
  fixes b :: "('a, 'w::len) CircularBuffer"
  assumes "invar b" "length xs \<le> unat (PTRDIFF_MAX :: 'w word)"
  shows "contents (assign_range xs b) = drop (length xs - unat (cap b)) xs"
proof -
  let ?sz = "of_nat (length xs) :: 'w word"
  let ?c = "clear b"
  have sz: "unat ?sz = length xs" by (rule unat_of_nat_length [OF assms(2)])
  have ic: "invar ?c" by (rule invar_clear [OF assms(1)])
  have cc: "cap ?c = cap b" by (simp add: clear_def)
  have s0: "unat (size_cb ?c) = 0" by (simp add: size_clear)
  show ?thesis
  proof (cases "?sz > cap b")
    case True
    then have gt: "unat (cap b) < length xs" using sz by (simp add: word_less_nat_alt)
    have le: "cap b \<le> ?sz" using True by simp
    have d: "unat (?sz - cap b) = length xs - unat (cap b)"
      using unat_sub [OF le] sz by simp
    have m: "min (cap b) ?sz = cap b" using le by (simp add: min_def)
    have "assign_range xs b =
        push_back_range (cap b) (drop (length xs - unat (cap b)) xs) ?c"
      using True d m by (simp add: assign_range_def Let_def cc)
    moreover have "contents (push_back_range (cap b) (drop (length xs - unat (cap b)) xs) ?c) =
        contents ?c @ take (unat (cap b)) (drop (length xs - unat (cap b)) xs)"
      using gt s0 by (intro contents_push_back_range [OF ic]) (simp_all add: cc)
    ultimately show ?thesis using gt by (simp add: contents_clear)
  next
    case False
    then have le: "length xs \<le> unat (cap b)" using sz by (simp add: word_less_nat_alt)
    have m: "min (cap b) ?sz = ?sz" using False by (simp add: min_def)
    have "assign_range xs b = push_back_range ?sz xs ?c"
      using False m by (simp add: assign_range_def Let_def cc)
    moreover have "contents (push_back_range ?sz xs ?c) = contents ?c @ take (unat ?sz) xs"
      using le s0 sz by (intro contents_push_back_range [OF ic]) (simp_all add: cc)
    ultimately show ?thesis using le sz by (simp add: contents_clear)
  qed
qed

lemma invar_assign_n: "invar b \<Longrightarrow> invar (assign_n n v b)"
  by (simp add: assign_n_def Let_def invar_push_back_n invar_clear)

lemma cap_assign_n: "cap (assign_n n v b) = cap b"
  by (simp add: assign_n_def Let_def cap_push_back_n clear_def)

lemma contents_assign_n:
  assumes "invar b"
  shows "contents (assign_n n v b) = replicate (min (unat (cap b)) (unat n)) v"
proof -
  have cc: "cap (clear b) = cap b" by (simp add: clear_def)
  have "contents (push_back_n (min (cap b) n) v (clear b)) =
      contents (clear b) @ replicate (unat (min (cap b) n)) v"
    by (intro contents_push_back_n [OF invar_clear [OF assms]])
       (simp add: size_clear cc unat_min)
  then show ?thesis by (simp add: assign_n_def Let_def cc contents_clear unat_min)
qed

lemma max_size_le: "max_size sizeof_T \<le> PTRDIFF_MAX"
  by (simp add: max_size_def word_le_nat_alt unat_div)

lemma CircularBuffer_new_Some:
  assumes "CircularBuffer_new sizeof_T T0 n = Some b"
  shows "invar b" and "cap b = n" and "contents b = []" and "\<not> full b"
    and "n \<noteq> 0" and "n \<le> PTRDIFF_MAX"
proof -
  from assms have nz: "n \<noteq> 0" and le: "n \<le> max_size sizeof_T"
    and b: "b = \<lparr>buf = replicate (unat n) T0, cap = n, head = 0, tail = 0, full = False\<rparr>"
    by (auto simp: CircularBuffer_new_def split: if_splits)
  from le max_size_le [of sizeof_T] show p: "n \<le> PTRDIFF_MAX" by (rule order_trans)
  show "n \<noteq> 0" by (rule nz)
  show "invar b" using nz p by (simp add: b invar_def word_neq_0_conv)
  show "cap b = n" by (simp add: b)
  show "contents b = []" by (simp add: b contents_def size_cb_def)
  show "\<not> full b" by (simp add: b)
qed

lemma CircularBuffer_range_Some:
  assumes "CircularBuffer_range sizeof_T T0 n xs = Some b"
  shows "\<exists>c. CircularBuffer_new sizeof_T T0 n = Some c \<and> b = assign_range xs c"
  using assms by (auto simp: CircularBuffer_range_def)

subsection \<open>Iteration\<close>

lemma upt_0_Suc_map: "map f [0..<Suc m] = f 0 # map (\<lambda>i. f (Suc i)) [0..<m]"
proof -
  have "[0..<Suc m] = 0 # map Suc [0..<m]"
    by (simp only: map_Suc_upt upt_conv_Cons [of 0 "Suc m", OF zero_less_Suc])
  then show ?thesis by (simp add: comp_def)
qed

lemma unat_of_nat_small:
  "m < 2 ^ LENGTH('w) \<Longrightarrow> unat (of_nat m :: 'w::len word) = m"
  by (simp add: unat_of_nat)

lemma iterate_stop: "iterate b it it = []"
  by (simp add: iterate.simps [of b it it])

lemma iterate_step: "it \<noteq> stop \<Longrightarrow> iterate b it stop = deref b it # iterate b (it + 1) stop"
  by (simp add: iterate.simps [of b it stop])

lemma riterate_stop: "riterate b stop stop = []"
  by (simp add: riterate.simps [of b stop stop])

lemma riterate_step:
  "cur \<noteq> stop \<Longrightarrow> riterate b cur stop = deref b (cur - 1) # riterate b (cur - 1) stop"
  by (simp add: riterate.simps [of b cur stop])

lemma deref_nat: "deref b pos = buf b ! (unat pos mod unat (cap b))"
  by (simp add: deref_def capacity_def unat_mod)

lemma iterate_upto:
  fixes it :: "'w::len word"
  assumes "unat it + m < 2 ^ LENGTH('w)"
  shows "iterate b it (it + of_nat m) =
     map (\<lambda>i. buf b ! ((unat it + i) mod unat (cap b))) [0..<m]"
  using assms
proof (induction m arbitrary: it)
  case 0
  then show ?case by (simp add: iterate_stop)
next
  case (Suc m)
  have m: "unat (of_nat (Suc m) :: 'w word) = Suc m"
    using Suc.prems by (intro unat_of_nat_small) simp
  then have "(of_nat (Suc m) :: 'w word) \<noteq> 0" by (auto simp: word_unat_eq_iff)
  then have ne: "it \<noteq> it + of_nat (Suc m)" by simp
  have "unat it + unat (1 :: 'w word) < 2 ^ LENGTH('w)" using Suc.prems by simp
  then have "unat (it + 1) = unat it + unat (1 :: 'w word)"
    by (rule unat_add_lem [THEN iffD1])
  then have it1: "unat (it + 1) = Suc (unat it)" by simp
  have e: "it + of_nat (Suc m) = it + 1 + of_nat m" by simp
  have d: "deref b it = buf b ! ((unat it + 0) mod unat (cap b))"
    by (simp add: deref_nat)
  have "unat (it + 1) + m < 2 ^ LENGTH('w)" using Suc.prems it1 by simp
  from Suc.IH [OF this]
  have ih: "iterate b (it + 1) (it + 1 + of_nat m) =
      map (\<lambda>i. buf b ! ((unat it + Suc i) mod unat (cap b))) [0..<m]"
    by (simp only: it1 add_Suc add_Suc_right)
  have "iterate b it (it + of_nat (Suc m)) =
      deref b it # iterate b (it + 1) (it + of_nat (Suc m))"
    by (rule iterate_step [OF ne])
  also have "\<dots> = deref b it # iterate b (it + 1) (it + 1 + of_nat m)"
    by (simp only: e)
  also have "\<dots> = buf b ! ((unat it + 0) mod unat (cap b)) #
      map (\<lambda>i. buf b ! ((unat it + Suc i) mod unat (cap b))) [0..<m]"
    by (simp only: d ih)
  also have "\<dots> = map (\<lambda>i. buf b ! ((unat it + i) mod unat (cap b))) [0..<Suc m]"
    by (simp only: upt_0_Suc_map)
  finally show ?case .
qed

lemma riterate_upto:
  fixes stop :: "'w::len word"
  assumes "unat stop + m < 2 ^ LENGTH('w)"
  shows "riterate b (stop + of_nat m) stop =
     rev (map (\<lambda>i. buf b ! ((unat stop + i) mod unat (cap b))) [0..<m])"
  using assms
proof (induction m)
  case 0
  then show ?case by (simp add: riterate_stop)
next
  case (Suc m)
  have m: "unat (of_nat (Suc m) :: 'w word) = Suc m"
    using Suc.prems by (intro unat_of_nat_small) simp
  then have "(of_nat (Suc m) :: 'w word) \<noteq> 0" by (auto simp: word_unat_eq_iff)
  then have ne: "stop + of_nat (Suc m) \<noteq> stop" by simp
  have e: "stop + of_nat (Suc m) - 1 = stop + of_nat m" by simp
  have m': "unat (of_nat m :: 'w word) = m"
    using Suc.prems by (intro unat_of_nat_small) simp
  then have "unat stop + unat (of_nat m :: 'w word) < 2 ^ LENGTH('w)" using Suc.prems by simp
  then have "unat (stop + of_nat m) = unat stop + unat (of_nat m :: 'w word)"
    by (rule unat_add_lem [THEN iffD1])
  then have u: "unat (stop + of_nat m) = unat stop + m"
    using m' by simp
  have d: "deref b (stop + of_nat m) = buf b ! ((unat stop + m) mod unat (cap b))"
    by (simp only: deref_nat u)
  have "unat stop + m < 2 ^ LENGTH('w)" using Suc.prems by simp
  note ih = Suc.IH [OF this]
  have "riterate b (stop + of_nat (Suc m)) stop =
      deref b (stop + of_nat (Suc m) - 1) # riterate b (stop + of_nat (Suc m) - 1) stop"
    by (rule riterate_step [OF ne])
  also have "\<dots> = deref b (stop + of_nat m) # riterate b (stop + of_nat m) stop"
    by (simp only: e)
  also have "\<dots> = buf b ! ((unat stop + m) mod unat (cap b)) #
      rev (map (\<lambda>i. buf b ! ((unat stop + i) mod unat (cap b))) [0..<m])"
    by (simp only: d ih)
  also have "\<dots> = rev (map (\<lambda>i. buf b ! ((unat stop + i) mod unat (cap b))) [0..<Suc m])"
    by simp
  finally show ?case .
qed

lemma end_it_nat:
  fixes b :: "('a, 'w::len) CircularBuffer"
  assumes "invar b"
  shows "unat (end_it b) = unat (begin_it b) + unat (size_cb b)"
    and "unat (tail b) + unat (size_cb b) < 2 ^ LENGTH('w)"
proof -
  note n = invar_nat [OF assms]
  have "size_cb b \<le> cap b" using size_le_cap [OF assms] by (simp add: word_le_nat_alt)
  from unat_add_small [OF n(6) n(8) this]
  show "unat (end_it b) = unat (begin_it b) + unat (size_cb b)"
    by (simp add: end_it_def begin_it_def)
  show "unat (tail b) + unat (size_cb b) < 2 ^ LENGTH('w)"
    using le_PTRDIFF_MAX_twice [OF n(6)] n(3) size_le_cap [OF assms] by linarith
qed

lemma forward_contents:
  assumes "invar b"
  shows "forward b = contents b"
proof -
  have "iterate b (tail b) (tail b + of_nat (unat (size_cb b))) = contents b"
    unfolding contents_def by (rule iterate_upto [OF end_it_nat(2) [OF assms]])
  then show ?thesis by (simp add: forward_def begin_it_def end_it_def)
qed

lemma backward_contents:
  assumes "invar b"
  shows "backward b = rev (contents b)"
proof -
  have "riterate b (tail b + of_nat (unat (size_cb b))) (tail b) = rev (contents b)"
    unfolding contents_def by (rule riterate_upto [OF end_it_nat(2) [OF assms]])
  then show ?thesis by (simp add: backward_def begin_it_def end_it_def)
qed

subsection \<open>Element access\<close>

lemma contents_Nil_iff:
  assumes "invar b"
  shows "(contents b = []) = empty_cb b"
proof -
  have "(contents b = []) = (length (contents b) = 0)" by simp
  then show ?thesis by (simp only: length_contents empty_iff_size [OF assms])
qed

lemma at_contents:
  assumes "invar b"
  shows "at b i = (if unat i < length (contents b) then Some (contents b ! unat i) else None)"
proof (cases "i < size_cb b")
  case True
  then have i: "unat i < unat (size_cb b)" by (simp add: word_less_nat_alt)
  then have ne: "\<not> empty_cb b" using empty_iff_size [OF assms] by simp
  note n = invar_nat [OF assms]
  have "i \<le> cap b" using i size_le_cap [OF assms] by (simp add: word_le_nat_alt)
  from unat_add_mod [OF n(6) n(8) this] show ?thesis
    using True i ne by (simp add: at_def length_contents contents_def)
next
  case False
  then show ?thesis by (simp add: at_def length_contents word_less_nat_alt)
qed

lemma front_contents:
  assumes "invar b"
  shows "front b = (if contents b = [] then None else Some (hd (contents b)))"
proof (cases "empty_cb b")
  case True
  then show ?thesis using contents_Nil_iff [OF assms] by (simp add: front_def)
next
  case False
  then have pos: "0 < unat (size_cb b)" using empty_iff_size [OF assms] by simp
  have "contents b \<noteq> []" using False contents_Nil_iff [OF assms] by simp
  then have "hd (contents b) = contents b ! 0" by (rule hd_conv_nth)
  also have "\<dots> = buf b ! unat (tail b)"
    using pos invar_nat(3) [OF assms] by (simp add: contents_def)
  finally show ?thesis using False contents_Nil_iff [OF assms] by (simp add: front_def)
qed

lemma back_contents:
  assumes "invar b"
  shows "back_cb b = (if contents b = [] then None else Some (last (contents b)))"
proof (cases "empty_cb b")
  case True
  then show ?thesis using contents_Nil_iff [OF assms] by (simp add: back_cb_def)
next
  case False
  note n = invar_nat [OF assms]
  have pos: "0 < unat (size_cb b)" using False empty_iff_size [OF assms] by simp
  have ne: "contents b \<noteq> []" using False contents_Nil_iff [OF assms] by simp
  have "unat (tail b) + (unat (size_cb b) - 1) < 2 * unat (cap b)"
    using n(3) size_le_cap [OF assms] pos by linarith
  from mod_lt_twice [OF this]
  have idx: "(unat (tail b) + (unat (size_cb b) - 1)) mod unat (cap b) =
      (if unat (head b) = 0 then unat (cap b) - 1 else unat (head b) - 1)"
    using n(1,2,3,5) pos unat_size_cb [OF assms] by (auto split: if_splits)
  have "last (contents b) = contents b ! (unat (size_cb b) - 1)"
    using ne length_contents [of b] by (simp add: last_conv_nth)
  also have "\<dots> = buf b ! ((unat (tail b) + (unat (size_cb b) - 1)) mod unat (cap b))"
    using pos by (simp add: contents_def)
  finally show ?thesis
    using False ne idx unat_dec_mod [OF n(6,7)] by (simp add: back_cb_def)
qed


subsection \<open>read\<close>

lemma read_state: "snd (snd (read b out num)) = b"
  by (simp add: read_def Let_def)

lemma read_cases:
  assumes "sz = min num (size_cb b)" "elms = min (cap b - tail b) sz"
  shows "read b out num =
     (if sz = 0 then (sz, out, b)
      else if elms < sz then
        (elms + (sz - elms),
         std_copy (take (unat (sz - elms)) (drop (unat ((tail b + elms) mod cap b)) (buf b)))
           (std_copy (take (unat elms) (drop (unat (tail b)) (buf b))) out 0) (unat elms),
         b)
      else (elms, std_copy (take (unat elms) (drop (unat (tail b)) (buf b))) out 0, b))"
  unfolding assms by (simp add: read_def Let_def)

lemma read_count: "fst (read b out num) = min num (size_cb b)"
proof -
  define sz where "sz = min num (size_cb b)"
  define elms where "elms = min (cap b - tail b) sz"
  note r = read_cases [OF sz_def elms_def, of out]
  have le: "elms \<le> sz" unfolding elms_def by (rule min.cobounded2)
  have "fst (read b out num) = sz"
  proof (cases "elms < sz")
    case True
    have "elms + (sz - elms) = sz" by simp
    then show ?thesis using True r by simp
  next
    case False
    then have "sz \<le> elms" by (simp only: not_less)
    with le have "elms = sz" by (rule order_antisym)
    then show ?thesis using False r by simp
  qed
  then show ?thesis by (simp only: sz_def)
qed

lemma std_copy_Nil: "std_copy [] out p = out"
proof
  fix k
  show "std_copy [] out p k = out k" by (auto simp: std_copy_def)
qed

text \<open>The two runs that \<^const>\<open>read\<close> copies, as lists, and where it writes them.\<close>

lemma read_memory:
  fixes b :: "('a, 'w::len) CircularBuffer" and num :: "'w word"
  assumes "invar b"
  defines "n \<equiv> min (unat num) (unat (size_cb b))"
  defines "e \<equiv> min (unat (cap b) - unat (tail b)) n"
  shows "fst (snd (read b out num)) =
     std_copy (take (n - e) (buf b)) (std_copy (take e (drop (unat (tail b)) (buf b))) out 0) e"
proof -
  note i = invar_nat [OF assms(1)]
  define sz where "sz = min num (size_cb b)"
  define elms where "elms = min (cap b - tail b) sz"
  note r = read_cases [OF sz_def elms_def, of out]
  have sz: "unat sz = n" by (simp add: n_def sz_def unat_min)
  have ct: "unat (cap b - tail b) = unat (cap b) - unat (tail b)"
    using i(8) by (simp add: unat_sub)
  have elms: "unat elms = e" by (simp add: e_def elms_def unat_min ct sz)
  have le: "elms \<le> sz" unfolding elms_def by (rule min.cobounded2)
  show ?thesis
  proof (cases "sz = 0")
    case True
    then have "n = 0" using sz by simp
    moreover from this have "e = 0" by (simp add: e_def)
    ultimately show ?thesis
      using True r by (simp add: std_copy_Nil)
  next
    case nz: False
    show ?thesis
    proof (cases "elms < sz")
      case True
      then have lt: "e < n" using sz elms by (simp add: word_less_nat_alt)
      then have e: "e = unat (cap b) - unat (tail b)" by (simp add: e_def)
      have "elms \<le> cap b"
        using elms e by (simp add: word_le_nat_alt)
      from unat_add_mod [OF i(6) i(8) this]
      have "unat ((tail b + elms) mod cap b) = (unat (tail b) + e) mod unat (cap b)"
        using elms by simp
      also have "\<dots> = 0" using e i(3) by simp
      finally have tl1: "unat ((tail b + elms) mod cap b) = 0" .
      from unat_sub [OF le] have "unat (sz - elms) = n - e"
        by (simp only: sz elms)
      then show ?thesis
        using nz True tl1 elms r by simp
    next
      case False
      then have "n \<le> e" using sz elms by (simp add: word_less_nat_alt)
      then have "n - e = 0" by simp
      then show ?thesis
        using nz False elms r by (simp add: std_copy_Nil)
    qed
  qed
qed

lemma two_runs:
  fixes b :: "('a, 'w::len) CircularBuffer" and n :: nat
  assumes "invar b" "n \<le> unat (size_cb b)"
  defines "e \<equiv> min (unat (cap b) - unat (tail b)) n"
  shows "take e (drop (unat (tail b)) (buf b)) @ take (n - e) (buf b) = take n (contents b)"
proof (rule nth_equalityI)
  note i = invar_nat [OF assms(1)]
  note s = size_le_cap [OF assms(1)]
  have l1: "length (take e (drop (unat (tail b)) (buf b))) = e"
    using i(3,4) by (simp add: e_def)
  have l2: "length (take (n - e) (buf b)) = n - e"
    using i(4) s assms(2) by simp
  have en: "e \<le> n" by (simp add: e_def)
  show "length (take e (drop (unat (tail b)) (buf b)) @ take (n - e) (buf b)) =
      length (take n (contents b))"
    using l1 l2 en assms(2) by (simp add: length_contents)
  fix k
  assume "k < length (take e (drop (unat (tail b)) (buf b)) @ take (n - e) (buf b))"
  then have k: "k < n" using l1 l2 en by simp
  then have ks: "k < unat (size_cb b)" using assms(2) by simp
  have "unat (tail b) + k < 2 * unat (cap b)" using i(3) ks s by linarith
  note md = mod_lt_twice [OF this]
  have c: "take n (contents b) ! k = buf b ! ((unat (tail b) + k) mod unat (cap b))"
    using k ks by (simp add: contents_def)
  show "(take e (drop (unat (tail b)) (buf b)) @ take (n - e) (buf b)) ! k =
      take n (contents b) ! k"
  proof (cases "k < e")
    case True
    then have "k < unat (cap b) - unat (tail b)" by (simp add: e_def)
    then have "unat (tail b) + k < unat (cap b)" by linarith
    then show ?thesis using True c md l1 i(4) by (simp add: nth_append)
  next
    case False
    then have ek: "e \<le> k" by simp
    then have e: "e = unat (cap b) - unat (tail b)" using k by (simp add: e_def)
    have "(take e (drop (unat (tail b)) (buf b)) @ take (n - e) (buf b)) ! k =
        take (n - e) (buf b) ! (k - e)"
      using False l1 by (simp add: nth_append)
    also have "\<dots> = buf b ! (k - e)" using k ek by simp
    also have "k - e = (unat (tail b) + k) mod unat (cap b)"
    proof -
      have "\<not> unat (tail b) + k < unat (cap b)" using e ek by linarith
      then have "(unat (tail b) + k) mod unat (cap b) = unat (tail b) + k - unat (cap b)"
        using md by simp
      moreover have "k - e = unat (tail b) + k - unat (cap b)" using e i(3) by linarith
      ultimately show ?thesis by simp
    qed
    finally show ?thesis using c by simp
  qed
qed

lemma std_copy_two:
  assumes "length xs = e" "k < e + length ys"
  shows "std_copy ys (std_copy xs out 0) e k = (xs @ ys) ! k"
  using assms by (simp add: std_copy_def nth_append)

lemma std_copy_two_out:
  assumes "length xs = e" "e + length ys \<le> k"
  shows "std_copy ys (std_copy xs out 0) e k = out k"
  using assms by (simp add: std_copy_def)

lemma read_cells:
  assumes "invar b"
  shows "fst (snd (read b out num)) k =
     (if k < min (unat num) (unat (size_cb b)) then contents b ! k else out k)"
proof -
  note i = invar_nat [OF assms]
  define n where "n = min (unat num) (unat (size_cb b))"
  define e where "e = min (unat (cap b) - unat (tail b)) n"
  have n: "n \<le> unat (size_cb b)" by (simp add: n_def)
  have l1: "length (take e (drop (unat (tail b)) (buf b))) = e"
    using i(3,4) by (simp add: e_def)
  have l2: "length (take (n - e) (buf b)) = n - e"
    using i(4) size_le_cap [OF assms] n by simp
  have en: "e \<le> n" by (simp add: e_def)
  have m: "fst (snd (read b out num)) =
      std_copy (take (n - e) (buf b)) (std_copy (take e (drop (unat (tail b)) (buf b))) out 0) e"
    unfolding n_def e_def by (rule read_memory [OF assms])
  show ?thesis
  proof (cases "k < n")
    case True
    then have "k < e + length (take (n - e) (buf b))" using l2 en by simp
    from std_copy_two [OF l1 this]
    have "fst (snd (read b out num)) k =
        (take e (drop (unat (tail b)) (buf b)) @ take (n - e) (buf b)) ! k"
      using m by simp
    also have "\<dots> = take n (contents b) ! k"
      using two_runs [OF assms n] by (simp add: e_def)
    finally show ?thesis using True by (simp add: n_def)
  next
    case False
    then have "e + length (take (n - e) (buf b)) \<le> k" using l2 en by simp
    from std_copy_two_out [OF l1 this, of out]
    have "fst (snd (read b out num)) k = out k" using m by simp
    then show ?thesis using False by (auto simp: n_def)
  qed
qed


lemma read_unfold_memory:
  "\<exists>xs ys e. \<forall>out. fst (snd (read b out num)) = std_copy ys (std_copy xs out 0) e"
proof -
  define sz where "sz = min num (size_cb b)"
  define elms where "elms = min (cap b - tail b) sz"
  note r = read_cases [OF sz_def elms_def]
  show ?thesis
  proof (cases "sz = 0")
    case True
    then have "\<forall>out. fst (snd (read b out num)) = std_copy [] (std_copy [] out 0) 0"
      using r by (simp add: std_copy_Nil)
    then show ?thesis by blast
  next
    case nz: False
    show ?thesis
    proof (cases "elms < sz")
      case True
      then have "\<forall>out. fst (snd (read b out num)) =
          std_copy (take (unat (sz - elms)) (drop (unat ((tail b + elms) mod cap b)) (buf b)))
            (std_copy (take (unat elms) (drop (unat (tail b)) (buf b))) out 0) (unat elms)"
        using nz r by simp
      then show ?thesis by blast
    next
      case False
      then have "\<forall>out. fst (snd (read b out num)) =
          std_copy [] (std_copy (take (unat elms) (drop (unat (tail b)) (buf b))) out 0) 0"
        using nz r by (simp add: std_copy_Nil)
      then show ?thesis by blast
    qed
  qed
qed

lemma std_copy_twice:
  "std_copy ys (std_copy xs (std_copy ys (std_copy xs out 0) e) 0) e =
   std_copy ys (std_copy xs out 0) e"
proof
  fix k
  show "std_copy ys (std_copy xs (std_copy ys (std_copy xs out 0) e) 0) e k =
      std_copy ys (std_copy xs out 0) e k"
    by (simp add: std_copy_def)
qed

lemma read_again:
  "fst (snd (read b (fst (snd (read b out num))) num)) = fst (snd (read b out num))"
proof -
  from read_unfold_memory [of b num]
  obtain xs ys e where m: "\<And>out. fst (snd (read b out num)) = std_copy ys (std_copy xs out 0) e"
    by blast
  show ?thesis by (simp only: m std_copy_twice)
qed

section \<open>Reachable states\<close>

text \<open>
  Every constructed buffer satisfies \<^const>\<open>invar\<close> (\<open>CircularBuffer_new_Some\<close>), and
  every mutator keeps it: the states that a program can reach are states of the
  invariant, and the properties below are stated for those.
\<close>

lemma invar_apply_mutator: "invar b \<Longrightarrow> invar (apply_mutator m b)"
  by (cases m)
     (simp_all add: invar_push_back invar_push_front invar_pop_front invar_pop_back
        invar_clear invar_fill invar_assign_n invar_assign_range)

lemma invar_run: "invar b \<Longrightarrow> invar (run b ms)"
  unfolding run_def by (induction ms arbitrary: b) (simp_all add: invar_apply_mutator)

lemma full_iff_size:
  assumes "invar b"
  shows "full b = (size_cb b = cap b)"
  using invar_nat(1,2,3) [OF assms] unat_size_cb [OF assms]
  by (auto simp: word_unat_eq_iff split: if_splits)

lemma new_rbuf4: "CircularBuffer_new 4 (0::int) (4::32 word) = Some rbuf4"
proof -
  have "unat (4::32 word) = 4" by simp
  moreover have "replicate 4 (0::int) = [0, 0, 0, 0]" by (simp add: numeral_eq_Suc)
  ultimately have "replicate (unat (4::32 word)) (0::int) = [0, 0, 0, 0]" by (simp only:)
  moreover have "\<not> (4::32 word) > max_size 4" by (simp add: max_size_def PTRDIFF_MAX_def)
  ultimately show ?thesis by (simp add: CircularBuffer_new_def rbuf4_def)
qed

lemma invar_rbuf4: "invar rbuf4"
  by (rule CircularBuffer_new_Some(1) [OF new_rbuf4])

lemma invar_run_rbuf4: "invar (run rbuf4 ms)"
  by (rule invar_run [OF invar_rbuf4])

section \<open>The claims\<close>

text \<open>
  Claim C1, as stated, fails. The scenario of the specification is: capacity 4,
  \<^verbatim>\<open>push_back(1)\<close>, \<^verbatim>\<open>pop_front()\<close>, \<^verbatim>\<open>push_back(2)\<close>, \<^verbatim>\<open>push_front(3)\<close>,
  \<^verbatim>\<open>push_back(4)\<close>, \<^verbatim>\<open>push_back(5)\<close>, \<^verbatim>\<open>push_front(6)\<close>. The buffer is full at the
  end, but its contents from front to back are not 6, 3, 4, 5.
\<close>

theorem C1_scenario_counterexample:
  "CircularBuffer_new 4 (0::int) (4::32 word) = Some rbuf4 \<and>
   full (run rbuf4 spec_steps) \<and>
   forward (run rbuf4 spec_steps) \<noteq> [6, 3, 4, 5]"
proof -
  have "full (run rbuf4 spec_steps)" by code_simp
  moreover have "forward (run rbuf4 spec_steps) = [6, 3, 2, 4]" by code_simp
  ultimately show ?thesis using new_rbuf4 by simp
qed

text \<open>
  Claim C1, amended. In the scenario of the specification \<^verbatim>\<open>push_back(1)\<close> gives
  \<^verbatim>\<open>front() == back() == 1\<close>, \<^verbatim>\<open>pop_front()\<close> empties the buffer,
  \<^verbatim>\<open>push_back(2)\<close> gives \<^verbatim>\<open>front() == back() == 2\<close>; the element 2 is never removed,
  so the buffer is already full, holding 3, 2, 4, 5, after \<^verbatim>\<open>push_back(5)\<close>, and
  \<^verbatim>\<open>push_front(6)\<close> evicts the back element 5: the buffer ends full, holding
  6, 3, 2, 4 from front to back.
\<close>

theorem C1_scenario_amended:
  "CircularBuffer_new 4 (0::int) (4::32 word) = Some rbuf4 \<and>
   front (run rbuf4 (take 1 spec_steps)) = Some 1 \<and>
   back_cb (run rbuf4 (take 1 spec_steps)) = Some 1 \<and>
   empty_cb (run rbuf4 (take 2 spec_steps)) \<and>
   front (run rbuf4 (take 3 spec_steps)) = Some 2 \<and>
   back_cb (run rbuf4 (take 3 spec_steps)) = Some 2 \<and>
   full (run rbuf4 (take 6 spec_steps)) \<and>
   forward (run rbuf4 (take 6 spec_steps)) = [3, 2, 4, 5] \<and>
   full (run rbuf4 spec_steps) \<and>
   size_cb (run rbuf4 spec_steps) = capacity (run rbuf4 spec_steps) \<and>
   forward (run rbuf4 spec_steps) = [6, 3, 2, 4] \<and>
   map (at (run rbuf4 spec_steps)) [0, 1, 2, 3] = [Some 6, Some 3, Some 2, Some 4]"
proof -
  have "front (run rbuf4 (take 1 spec_steps)) = Some 1" by code_simp
  moreover have "back_cb (run rbuf4 (take 1 spec_steps)) = Some 1" by code_simp
  moreover have "empty_cb (run rbuf4 (take 2 spec_steps))" by code_simp
  moreover have "front (run rbuf4 (take 3 spec_steps)) = Some 2" by code_simp
  moreover have "back_cb (run rbuf4 (take 3 spec_steps)) = Some 2" by code_simp
  moreover have "full (run rbuf4 (take 6 spec_steps))" by code_simp
  moreover have "forward (run rbuf4 (take 6 spec_steps)) = [3, 2, 4, 5]" by code_simp
  moreover have "full (run rbuf4 spec_steps)" by code_simp
  moreover have "size_cb (run rbuf4 spec_steps) = capacity (run rbuf4 spec_steps)" by code_simp
  moreover have "forward (run rbuf4 spec_steps) = [6, 3, 2, 4]" by code_simp
  moreover have "map (at (run rbuf4 spec_steps)) [0, 1, 2, 3] = [Some 6, Some 3, Some 2, Some 4]"
    by code_simp
  ultimately show ?thesis using new_rbuf4 by simp
qed

text \<open>
  The sequence of the unit test, which starts with \<^verbatim>\<open>push_front(1)\<close> and has a
  \<^verbatim>\<open>pop_back()\<close> after \<^verbatim>\<open>push_back(2)\<close>, does end with 6, 3, 4, 5.
\<close>

lemma test_scenario:
  "full (run rbuf4 test_steps) \<and> forward (run rbuf4 test_steps) = [6, 3, 4, 5]"
proof -
  have "full (run rbuf4 test_steps)" by code_simp
  moreover have "forward (run rbuf4 test_steps) = [6, 3, 4, 5]" by code_simp
  ultimately show ?thesis by simp
qed

text \<open>
  Claim C2. On a full buffer (\<^verbatim>\<open>size() == capacity()\<close>) \<^verbatim>\<open>push_back(v)\<close> removes the
  front element and appends \<open>v\<close>, \<^verbatim>\<open>push_front(v)\<close> removes the back element and
  prepends \<open>v\<close>; the other elements keep their order and the buffer stays full.
\<close>

theorem C2_push_on_full:
  assumes "invar b" "size_cb b = capacity b"
  shows "front b = Some (hd (forward b)) \<and>
         forward (push_back v b) = tl (forward b) @ [v] \<and>
         back_cb b = Some (last (forward b)) \<and>
         forward (push_front v b) = v # butlast (forward b) \<and>
         size_cb (push_back v b) = capacity (push_back v b) \<and>
         size_cb (push_front v b) = capacity (push_front v b) \<and>
         capacity (push_back v b) = capacity b \<and>
         capacity (push_front v b) = capacity b"
proof -
  have f: "full b" using assms full_iff_size [OF assms(1)] by (simp add: capacity_def)
  have ne: "contents b \<noteq> []"
    using invar_nat(1) [OF assms(1)] assms(2) length_contents [of b]
    by (auto simp: capacity_def)
  have "front b = Some (hd (forward b))"
    using front_contents [OF assms(1)] ne by (simp add: forward_contents [OF assms(1)])
  moreover have "back_cb b = Some (last (forward b))"
    using back_contents [OF assms(1)] ne by (simp add: forward_contents [OF assms(1)])
  moreover have "forward (push_back v b) = tl (forward b) @ [v]"
    using contents_push_back [OF assms(1), of v] f
    by (simp add: forward_contents [OF assms(1)] forward_contents [OF invar_push_back [OF assms(1)]])
  moreover have "forward (push_front v b) = v # butlast (forward b)"
    using contents_push_front [OF assms(1), of v] f
    by (simp add: forward_contents [OF assms(1)] forward_contents [OF invar_push_front [OF assms(1)]])
  moreover have "size_cb (push_back v b) = capacity (push_back v b)"
    using size_push_back [OF assms(1), of v] f push_back_fields(2) [OF assms(1), of v]
    by (simp add: capacity_def word_unat_eq_iff)
  moreover have "size_cb (push_front v b) = capacity (push_front v b)"
    using size_push_front [OF assms(1), of v] f push_front_fields(2) [OF assms(1), of v]
    by (simp add: capacity_def word_unat_eq_iff)
  moreover have "capacity (push_back v b) = capacity b"
    by (simp add: capacity_def push_back_fields(2) [OF assms(1)])
  moreover have "capacity (push_front v b) = capacity b"
    by (simp add: capacity_def push_front_fields(2) [OF assms(1)])
  ultimately show ?thesis by simp
qed

theorem C2_push_on_full_witness:
  "invar (run rbuf4 test_steps) \<and>
   size_cb (run rbuf4 test_steps) = capacity (run rbuf4 test_steps) \<and>
   forward (run rbuf4 test_steps) = [6, 3, 4, 5] \<and>
   forward (push_back 8 (run rbuf4 test_steps)) = [3, 4, 5, 8] \<and>
   forward (push_front 7 (run rbuf4 test_steps)) = [7, 6, 3, 4]"
proof -
  have i: "invar (run rbuf4 test_steps)" by (rule invar_run_rbuf4)
  have s: "size_cb (run rbuf4 test_steps) = capacity (run rbuf4 test_steps)" by code_simp
  have f: "forward (run rbuf4 test_steps) = [6, 3, 4, 5]" by code_simp
  from C2_push_on_full [OF i s, of 8] C2_push_on_full [OF i s, of 7]
  show ?thesis using i s f by simp
qed

text \<open>
  Claim C3. \<^verbatim>\<open>read(outBuffer, maxCount)\<close> returns \<open>min(maxCount, size())\<close> and writes
  that many elements, the first elements of the buffer in logical order, to the cells
  \<open>0, 1, \<dots>\<close> of the caller's memory, leaving every other cell as it was. What it
  writes is at most two contiguous runs of the vector: one from \<^verbatim>\<open>_tail\<close> towards the
  end of the vector, one from slot 0.
\<close>

theorem C3_read:
  assumes "invar b"
  shows "fst (read b out num) = min num (size_cb b) \<and>
         map (fst (snd (read b out num))) [0..<unat (min num (size_cb b))] =
           take (unat (min num (size_cb b))) (forward b) \<and>
         (\<forall>k. unat (min num (size_cb b)) \<le> k \<longrightarrow> fst (snd (read b out num)) k = out k) \<and>
         take (unat (min num (size_cb b))) (forward b) =
           take (min (unat (capacity b) - unat (tail b)) (unat (min num (size_cb b))))
             (drop (unat (tail b)) (buf b)) @
           take (unat (min num (size_cb b)) -
                 min (unat (capacity b) - unat (tail b)) (unat (min num (size_cb b))))
             (buf b)"
proof -
  let ?n = "unat (min num (size_cb b))"
  have n: "?n = min (unat num) (unat (size_cb b))" by (rule unat_min)
  have le: "?n \<le> unat (size_cb b)" by (simp add: n)
  have w: "map (fst (snd (read b out num))) [0..<?n] = take ?n (forward b)"
  proof (rule nth_equalityI)
    show "length (map (fst (snd (read b out num))) [0..<?n]) = length (take ?n (forward b))"
      using le by (simp add: forward_contents [OF assms] length_contents)
    fix k
    assume "k < length (map (fst (snd (read b out num))) [0..<?n])"
    then have k: "k < ?n" by simp
    then show "map (fst (snd (read b out num))) [0..<?n] ! k = take ?n (forward b) ! k"
      using read_cells [OF assms, of out num k]
      by (simp add: n forward_contents [OF assms])
  qed
  have o: "fst (snd (read b out num)) k = out k" if "?n \<le> k" for k
    using read_cells [OF assms, of out num k] that by (auto simp: n)
  have t: "take ?n (forward b) =
      take (min (unat (capacity b) - unat (tail b)) ?n) (drop (unat (tail b)) (buf b)) @
      take (?n - min (unat (capacity b) - unat (tail b)) ?n) (buf b)"
    using two_runs [OF assms le] by (simp add: forward_contents [OF assms] capacity_def)
  from w o t show ?thesis by (simp add: read_count)
qed

theorem C3_read_witness:
  "invar (run rbuf4 read_steps) \<and>
   tail (run rbuf4 read_steps) = 1 \<and> head (run rbuf4 read_steps) = 1 \<and>
   buf (run rbuf4 read_steps) = [4, 1, 2, 3] \<and>
   fst (read (run rbuf4 read_steps) (\<lambda>k. 0) 4) = 4 \<and>
   map (fst (snd (read (run rbuf4 read_steps) (\<lambda>k. 0) 4))) [0..<4] = [1, 2, 3, 4] \<and>
   forward (run rbuf4 read_steps) = [1, 2, 3, 4]"
proof -
  have i: "invar (run rbuf4 read_steps)" by (rule invar_run_rbuf4)
  have t: "tail (run rbuf4 read_steps) = 1" by code_simp
  have h: "head (run rbuf4 read_steps) = 1" by code_simp
  have b: "buf (run rbuf4 read_steps) = [4, 1, 2, 3]" by code_simp
  have f: "forward (run rbuf4 read_steps) = [1, 2, 3, 4]" by code_simp
  have s: "min 4 (size_cb (run rbuf4 read_steps)) = 4" by code_simp
  from C3_read [OF i, of "\<lambda>k. 0" 4]
  show ?thesis using i t h b f s by simp
qed

text \<open>
  Claim C4. A source range longer than the capacity, assigned into a buffer or given to
  the range constructor, leaves exactly its last \<open>cap\<close> elements in the buffer, in
  their order: the first \<open>sz - cap\<close> elements are skipped. The range is one that
  memory can hold, of a length of at most \<^verbatim>\<open>PTRDIFF_MAX\<close>, and the constructor is one
  that returned a buffer.
\<close>

theorem C4_truncation:
  fixes b :: "('a, 'w::len) CircularBuffer" and n :: "'w word"
  assumes "length xs \<le> unat (PTRDIFF_MAX :: 'w word)"
  shows "(invar b \<and> unat (capacity b) < length xs \<longrightarrow>
            forward (assign_range xs b) = drop (length xs - unat (capacity b)) xs \<and>
            length (forward (assign_range xs b)) = unat (capacity b) \<and>
            capacity (assign_range xs b) = capacity b) \<and>
         (\<forall>c. CircularBuffer_range sizeof_T T0 n xs = Some c \<and> unat n < length xs \<longrightarrow>
            forward c = drop (length xs - unat n) xs \<and>
            length (forward c) = unat n \<and> capacity c = n)"
proof -
  have a: "forward (assign_range xs c) = drop (length xs - unat (capacity c)) xs \<and>
      length (forward (assign_range xs c)) = unat (capacity c) \<and>
      capacity (assign_range xs c) = capacity c"
    if "invar c" "unat (capacity c) < length xs" for c :: "('a, 'w) CircularBuffer"
  proof -
    have "forward (assign_range xs c) = drop (length xs - unat (cap c)) xs"
      using contents_assign_range [OF that(1) assms]
      by (simp add: forward_contents [OF invar_assign_range [OF that(1)]])
    then show ?thesis using that(2) by (simp add: capacity_def cap_assign_range)
  qed
  have "forward c = drop (length xs - unat n) xs \<and> length (forward c) = unat n \<and> capacity c = n"
    if "CircularBuffer_range sizeof_T T0 n xs = Some c" "unat n < length xs"
    for c :: "('a, 'w) CircularBuffer"
  proof -
    from CircularBuffer_range_Some [OF that(1)]
    obtain c0 where c0: "CircularBuffer_new sizeof_T T0 n = Some c0"
      and c: "c = assign_range xs c0"
      by blast
    note f = CircularBuffer_new_Some(1,2) [OF c0]
    have "unat (capacity c0) < length xs" using that(2) f(2) by (simp add: capacity_def)
    from a [OF f(1) this] show ?thesis
      using f(2) that(2) by (simp add: capacity_def c)
  qed
  with a show ?thesis by blast
qed

theorem C4_truncation_witness:
  "length [0, 1, 2, 3, 4, 5, 6 :: int] \<le> unat (PTRDIFF_MAX :: 32 word) \<and>
   invar (run rbuf4 spec_steps) \<and>
   unat (capacity (run rbuf4 spec_steps)) < length [0, 1, 2, 3, 4, 5, 6 :: int] \<and>
   forward (assign_range [0, 1, 2, 3, 4, 5, 6] (run rbuf4 spec_steps)) = [3, 4, 5, 6] \<and>
   CircularBuffer_range 4 (0::int) (4::32 word) [0, 1, 2, 3, 4, 5, 6] =
     Some (assign_range [0, 1, 2, 3, 4, 5, 6] rbuf4) \<and>
   unat (4::32 word) < length [0, 1, 2, 3, 4, 5, 6 :: int] \<and>
   forward (assign_range [0, 1, 2, 3, 4, 5, 6] rbuf4) = [3, 4, 5, 6]"
proof -
  have l: "length [0, 1, 2, 3, 4, 5, 6 :: int] \<le> unat (PTRDIFF_MAX :: 32 word)"
    by (simp add: unat_PTRDIFF_MAX)
  have c: "unat (capacity (run rbuf4 spec_steps)) = 4" by code_simp
  have r: "CircularBuffer_range 4 (0::int) (4::32 word) [0, 1, 2, 3, 4, 5, 6] =
      Some (assign_range [0, 1, 2, 3, 4, 5, 6] rbuf4)"
    by (simp add: CircularBuffer_range_def new_rbuf4)
  from C4_truncation [OF l, of "run rbuf4 spec_steps" 4 0 4]
  show ?thesis using l c r invar_run_rbuf4 [of spec_steps] by simp
qed

text \<open>
  Claim C5. In every state reached from a freshly constructed buffer by a sequence of
  calls of the public mutators, \<^verbatim>\<open>size() <= capacity()\<close>, \<^verbatim>\<open>empty()\<close> is true exactly
  when \<^verbatim>\<open>size() == 0\<close> and \<^verbatim>\<open>full()\<close> exactly when \<^verbatim>\<open>size() == capacity()\<close>.
\<close>

theorem C5_reachable_states:
  assumes "CircularBuffer_new sizeof_T T0 n = Some b0"
  shows "size_cb (run b0 ms) \<le> capacity (run b0 ms) \<and>
         empty_cb (run b0 ms) = (size_cb (run b0 ms) = 0) \<and>
         full (run b0 ms) = (size_cb (run b0 ms) = capacity (run b0 ms))"
proof -
  have i: "invar (run b0 ms)"
    by (rule invar_run [OF CircularBuffer_new_Some(1) [OF assms]])
  have "size_cb (run b0 ms) \<le> capacity (run b0 ms)"
    using size_le_cap [OF i] by (simp add: capacity_def word_le_nat_alt)
  moreover have "empty_cb (run b0 ms) = (size_cb (run b0 ms) = 0)"
    using empty_iff_size [OF i] by (simp add: word_unat_eq_iff)
  moreover have "full (run b0 ms) = (size_cb (run b0 ms) = capacity (run b0 ms))"
    using full_iff_size [OF i] by (simp add: capacity_def)
  ultimately show ?thesis by simp
qed

theorem C5_reachable_states_witness:
  "CircularBuffer_new 4 (0::int) (4::32 word) = Some rbuf4 \<and>
   size_cb (run rbuf4 spec_steps) \<le> capacity (run rbuf4 spec_steps) \<and>
   empty_cb (run rbuf4 spec_steps) = (size_cb (run rbuf4 spec_steps) = 0) \<and>
   full (run rbuf4 spec_steps) = (size_cb (run rbuf4 spec_steps) = capacity (run rbuf4 spec_steps)) \<and>
   size_cb (run rbuf4 spec_steps) = 4"
proof -
  have "size_cb (run rbuf4 spec_steps) = 4" by code_simp
  with C5_reachable_states [OF new_rbuf4, of spec_steps] new_rbuf4
  show ?thesis by simp
qed

text \<open>
  Claim C6. A buffer that the range constructor returned for a range no longer than the
  capacity yields, when iterated from \<^verbatim>\<open>begin()\<close> to \<^verbatim>\<open>end()\<close>, exactly the elements
  of the range in order.
\<close>

theorem C6_round_trip:
  fixes n :: "'w::len word"
  assumes "CircularBuffer_range sizeof_T T0 n xs = Some b" "length xs \<le> unat n"
  shows "forward b = xs"
proof -
  from CircularBuffer_range_Some [OF assms(1)]
  obtain c0 where c0: "CircularBuffer_new sizeof_T T0 n = Some c0"
    and b: "b = assign_range xs c0"
    by blast
  note f = CircularBuffer_new_Some(1,2,6) [OF c0]
  from f(3) have "unat n \<le> unat (PTRDIFF_MAX :: 'w word)"
    by (rule word_le_nat_alt [THEN iffD1])
  with assms(2) have "length xs \<le> unat (PTRDIFF_MAX :: 'w word)"
    by (rule order_trans)
  from contents_assign_range [OF f(1) this]
  have c: "contents (assign_range xs c0) = drop (length xs - unat (cap c0)) xs" .
  have "length xs - unat (cap c0) = 0" using assms(2) f(2) by simp
  then have "drop (length xs - unat (cap c0)) xs = xs" by simp
  with c have "contents (assign_range xs c0) = xs" by (rule trans)
  then have "forward (assign_range xs c0) = xs"
    by (simp only: forward_contents [OF invar_assign_range [OF f(1)]])
  then show ?thesis by (simp only: b)
qed

theorem C6_round_trip_witness:
  "CircularBuffer_range 4 (0::int) (4::32 word) [0, 1, 2] = Some (assign_range [0, 1, 2] rbuf4) \<and>
   length [0, 1, 2 :: int] \<le> unat (4::32 word) \<and>
   forward (assign_range [0, 1, 2 :: int] rbuf4) = [0, 1, 2]"
proof -
  have r: "CircularBuffer_range 4 (0::int) (4::32 word) [0, 1, 2] =
      Some (assign_range [0, 1, 2] rbuf4)"
    by (simp add: CircularBuffer_range_def new_rbuf4)
  have l: "length [0, 1, 2 :: int] \<le> unat (4::32 word)" by simp
  from C6_round_trip [OF r l] show ?thesis using r by simp
qed

text \<open>
  Claim C7. \<^verbatim>\<open>read()\<close> leaves the buffer as it was: head, tail, full flag, stored
  elements and size are those before the call, so every later query answers as before.
  A second call with the same arguments, whether the caller's memory is as before the
  first call or as the first call left it, writes the same data and returns the same
  count.
\<close>

theorem C7_read_is_pure:
  "snd (snd (read b out num)) = b \<and>
   read (snd (snd (read b out num))) out num = read b out num \<and>
   fst (read (snd (snd (read b out num))) (fst (snd (read b out num))) num) =
     fst (read b out num) \<and>
   fst (snd (read (snd (snd (read b out num))) (fst (snd (read b out num))) num)) =
     fst (snd (read b out num)) \<and>
   head (snd (snd (read b out num))) = head b \<and>
   tail (snd (snd (read b out num))) = tail b \<and>
   full (snd (snd (read b out num))) = full b \<and>
   buf (snd (snd (read b out num))) = buf b \<and>
   size_cb (snd (snd (read b out num))) = size_cb b \<and>
   front (snd (snd (read b out num))) = front b \<and>
   back_cb (snd (snd (read b out num))) = back_cb b \<and>
   forward (snd (snd (read b out num))) = forward b \<and>
   at (snd (snd (read b out num))) i = at b i"
  by (simp only: read_state read_count read_again simp_thms)

text \<open>
  Claim C8. On an empty buffer \<^verbatim>\<open>front()\<close>, \<^verbatim>\<open>back()\<close> and \<^verbatim>\<open>at(i)\<close> return the absent
  value, and \<^verbatim>\<open>pop_front()\<close> and \<^verbatim>\<open>pop_back()\<close> leave the state as it is. On every
  buffer \<^verbatim>\<open>at(i)\<close> is absent for \<^verbatim>\<open>i >= size()\<close>, and otherwise it is the element at
  logical index \<open>i\<close>, read from a slot inside the vector. No accessor has a failing
  branch: each one is a total function to an optional value.
\<close>

theorem C8_absent_and_noop:
  "(empty_cb b \<longrightarrow>
      front b = None \<and> back_cb b = None \<and> at b i = None \<and>
      pop_front b = b \<and> pop_back b = b) \<and>
   (size_cb b \<le> i \<longrightarrow> at b i = None) \<and>
   (invar b \<and> i < size_cb b \<longrightarrow>
      at b i = Some (forward b ! unat i) \<and>
      at b i = Some (buf b ! ((unat (tail b) + unat i) mod unat (capacity b))) \<and>
      (unat (tail b) + unat i) mod unat (capacity b) < length (buf b))"
proof -
  have e: "front b = None \<and> back_cb b = None \<and> at b i = None \<and>
      pop_front b = b \<and> pop_back b = b" if "empty_cb b"
    using that by (simp add: front_def back_cb_def at_def pop_front_def pop_back_def)
  have n: "at b i = None" if "size_cb b \<le> i"
    using that by (simp add: at_def not_less)
  have a: "at b i = Some (forward b ! unat i) \<and>
      at b i = Some (buf b ! ((unat (tail b) + unat i) mod unat (capacity b))) \<and>
      (unat (tail b) + unat i) mod unat (capacity b) < length (buf b)"
    if "invar b" "i < size_cb b"
  proof -
    have i: "unat i < unat (size_cb b)" using that(2) by (rule unat_mono)
    have "at b i = Some (contents b ! unat i)"
      using at_contents [OF that(1), of i] i by (simp add: length_contents)
    moreover have "contents b ! unat i =
        buf b ! ((unat (tail b) + unat i) mod unat (cap b))"
      using i by (rule contents_nth)
    moreover have "(unat (tail b) + unat i) mod unat (cap b) < length (buf b)"
      using invar_nat(1,4) [OF that(1)] by simp
    ultimately show ?thesis
      by (simp add: forward_contents [OF that(1)] capacity_def)
  qed
  from e n a show ?thesis by blast
qed

theorem C8_absent_and_noop_witness:
  "empty_cb rbuf4 \<and> front rbuf4 = None \<and> back_cb rbuf4 = None \<and> at rbuf4 0 = None \<and>
   pop_front rbuf4 = rbuf4 \<and> pop_back rbuf4 = rbuf4 \<and>
   invar (run rbuf4 (take 5 test_steps)) \<and>
   size_cb (run rbuf4 (take 5 test_steps)) = 1 \<and>
   at (run rbuf4 (take 5 test_steps)) 1 = None \<and>
   at (run rbuf4 (take 5 test_steps)) 0 = Some 3 \<and>
   forward (run rbuf4 (take 5 test_steps)) = [3]"
proof -
  have e: "empty_cb rbuf4" by code_simp
  have s: "size_cb (run rbuf4 (take 5 test_steps)) = 1" by code_simp
  have f: "forward (run rbuf4 (take 5 test_steps)) = [3]" by code_simp
  have i: "invar (run rbuf4 (take 5 test_steps))" by (rule invar_run_rbuf4)
  from C8_absent_and_noop [of rbuf4 0]
    C8_absent_and_noop [of "run rbuf4 (take 5 test_steps)" 1]
    C8_absent_and_noop [of "run rbuf4 (take 5 test_steps)" 0]
  show ?thesis using e s f i by simp
qed

text \<open>
  Claim C9. From \<^verbatim>\<open>begin()\<close> to \<^verbatim>\<open>end()\<close> the iteration visits the \<^verbatim>\<open>size()\<close> elements
  of the buffer in logical order, front to back: the position of \<^verbatim>\<open>end()\<close> is that of
  \<^verbatim>\<open>begin()\<close> plus \<^verbatim>\<open>size()\<close>, with no wrap-around. Reverse iteration visits the same
  elements back to front.
\<close>

theorem C9_iteration:
  assumes "invar b"
  shows "forward b = contents b \<and>
         length (forward b) = unat (size_cb b) \<and>
         unat (end_it b) = unat (begin_it b) + unat (size_cb b) \<and>
         backward b = rev (forward b)"
  using assms
  by (simp add: forward_contents backward_contents length_contents end_it_nat(1))

theorem C9_iteration_witness:
  "invar (run rbuf4 iter_steps) \<and> full (run rbuf4 iter_steps) \<and>
   capacity (run rbuf4 iter_steps) = 4 \<and>
   forward (run rbuf4 iter_steps) = [9, 8, 7, 6] \<and>
   backward (run rbuf4 iter_steps) = [6, 7, 8, 9] \<and>
   contents (run rbuf4 iter_steps) = [9, 8, 7, 6] \<and>
   unat (end_it (run rbuf4 iter_steps)) = unat (begin_it (run rbuf4 iter_steps)) + 4"
proof -
  have f: "forward (run rbuf4 iter_steps) = [9, 8, 7, 6]" by code_simp
  have u: "full (run rbuf4 iter_steps)" by code_simp
  have c: "capacity (run rbuf4 iter_steps) = 4" by code_simp
  have s: "unat (size_cb (run rbuf4 iter_steps)) = 4" by code_simp
  from C9_iteration [OF invar_run_rbuf4, of iter_steps]
  show ?thesis using f u c s invar_run_rbuf4 [of iter_steps] by simp
qed

text \<open>
  Claim C10. On every buffer state, full and empty ones too, \<^verbatim>\<open>back()\<close> right after
  \<^verbatim>\<open>push_back(v)\<close> is \<open>v\<close>, \<^verbatim>\<open>front()\<close> right after \<^verbatim>\<open>push_front(v)\<close> is \<open>v\<close>, and
  the buffer is not empty after a push.
\<close>

theorem C10_push_then_access:
  assumes "invar b"
  shows "back_cb (push_back v b) = Some v \<and> front (push_front v b) = Some v \<and>
         \<not> empty_cb (push_back v b) \<and> \<not> empty_cb (push_front v b)"
proof -
  note ib = invar_push_back [OF assms, of v]
  note jb = invar_push_front [OF assms, of v]
  have cb: "contents (push_back v b) \<noteq> [] \<and> last (contents (push_back v b)) = v"
    by (simp add: contents_push_back [OF assms])
  have cf: "contents (push_front v b) \<noteq> [] \<and> hd (contents (push_front v b)) = v"
    by (simp add: contents_push_front [OF assms])
  have "back_cb (push_back v b) = Some v" using back_contents [OF ib] cb by simp
  moreover have "front (push_front v b) = Some v" using front_contents [OF jb] cf by simp
  moreover have "\<not> empty_cb (push_back v b)" using contents_Nil_iff [OF ib] cb by simp
  moreover have "\<not> empty_cb (push_front v b)" using contents_Nil_iff [OF jb] cf by simp
  ultimately show ?thesis by simp
qed

theorem C10_push_then_access_witness:
  "invar rbuf4 \<and> empty_cb rbuf4 \<and>
   back_cb (push_back 2 rbuf4) = Some 2 \<and> front (push_front 1 rbuf4) = Some 1 \<and>
   \<not> empty_cb (push_back 2 rbuf4) \<and> \<not> empty_cb (push_front 1 rbuf4) \<and>
   invar (run rbuf4 test_steps) \<and> full (run rbuf4 test_steps) \<and>
   back_cb (push_back 8 (run rbuf4 test_steps)) = Some 8 \<and>
   front (push_front 7 (run rbuf4 test_steps)) = Some 7"
proof -
  have e: "empty_cb rbuf4" by code_simp
  have f: "full (run rbuf4 test_steps)" by code_simp
  from C10_push_then_access [OF invar_rbuf4, of 2] C10_push_then_access [OF invar_rbuf4, of 1]
    C10_push_then_access [OF invar_run_rbuf4, of 8 test_steps]
    C10_push_then_access [OF invar_run_rbuf4, of 7 test_steps]
  show ?thesis using e f invar_rbuf4 invar_run_rbuf4 [of test_steps] by simp
qed

end
